theory Spec2Isabelle
  imports Main "HOL-Library.Multiset" "HOL-Library.Char_ord" "HOL-Library.List_Lexorder"
begin

section \<open>Signed characters and bundled properties (hdgraph.hpp)\<close>

text \<open>
  \<^verbatim>\<open>enum class State : bool { lose, gain }\<close> and \<^verbatim>\<open>struct SignedCharacter\<close>.
\<close>

datatype State = lose | gain

record SignedCharacter =
  character :: string
  state :: State

text \<open>
  \<^verbatim>\<open>operator<<(os, State)\<close>: \<^verbatim>\<open>sign = (s == State::lose); os << (sign ? "-" : "+")\<close>, and
  \<^verbatim>\<open>operator<<(os, SignedCharacter)\<close>: the name followed by the state.
\<close>

definition show_State :: "State \<Rightarrow> string" where
  "show_State s = (let sign = (s = lose) in if sign then ''-'' else ''+'')"

definition show_SignedCharacter :: "SignedCharacter \<Rightarrow> string" where
  "show_SignedCharacter sc = character sc @ show_State (state sc)"

record HDEdgeProperties =
  signedcharacters :: "SignedCharacter list"

record HDVertexProperties =
  species :: "string list"
  characters :: "string list"

section \<open>The Hasse diagram as a graph (hdgraph.hpp, hdgraph.cpp)\<close>

text \<open>
  \<^verbatim>\<open>HDGraph\<close> is a \<^verbatim>\<open>boost::adjacency_list<setS, listS, bidirectionalS, ...>\<close>.
  Its vertex list is kept in insertion order and a vertex descriptor stays valid while the
  graph lives; the embedding uses the position in that list as the descriptor (no function
  embedded here removes a vertex). An edge descriptor is the pair (source, target); the
  edge store is an association list from descriptors to the bundled edge properties.
  The graph bundle \<^verbatim>\<open>HDGraphProperties\<close> carries the field \<^verbatim>\<open>num_v\<close>; its two
  pointers to red-black graphs are not read by any function embedded here and are left out.
\<close>

type_synonym HDVertex = nat
type_synonym HDEdge = "HDVertex \<times> HDVertex"

record HDGraph =
  hd_vertices :: "HDVertexProperties list"
  hd_edges :: "(HDEdge \<times> HDEdgeProperties) list"
  num_v :: nat

definition hd_keys :: "HDGraph \<Rightarrow> HDEdge list" where
  "hd_keys hasse = map fst (hd_edges hasse)"

text \<open>
  \<^verbatim>\<open>boost::add_vertex(hasse)\<close>: a new vertex with default-constructed properties at the
  end of the vertex list.
\<close>

definition boost_add_vertex :: "HDGraph \<Rightarrow> HDVertex \<times> HDGraph" where
  "boost_add_vertex hasse =
     (length (hd_vertices hasse),
      hasse\<lparr>hd_vertices := hd_vertices hasse @ [\<lparr>species = [], characters = []\<rparr>]\<rparr>)"

text \<open>
  \<^verbatim>\<open>boost::add_edge(u, v, hasse)\<close> with \<^verbatim>\<open>OutEdgeList = setS\<close>: when the edge (u, v) is
  already in the graph no edge is added, the descriptor of the existing edge is returned and
  the flag is false (as the comment on \<^verbatim>\<open>add_edge\<close> in hdgraph.hpp says); otherwise an
  edge with default-constructed properties is added and the flag is true.
\<close>

definition boost_add_edge :: "HDVertex \<Rightarrow> HDVertex \<Rightarrow> HDGraph \<Rightarrow> (HDEdge \<times> bool) \<times> HDGraph" where
  "boost_add_edge u v hasse =
     (if (u, v) \<in> set (hd_keys hasse) then (((u, v), False), hasse)
      else (((u, v), True),
            hasse\<lparr>hd_edges := hd_edges hasse @ [((u, v), \<lparr>signedcharacters = []\<rparr>)]\<rparr>))"

text \<open>Writing \<^verbatim>\<open>hasse[e].signedcharacters\<close> through an edge descriptor.\<close>

definition update_edge ::
  "HDEdge \<Rightarrow> (SignedCharacter list \<Rightarrow> SignedCharacter list) \<Rightarrow> HDGraph \<Rightarrow> HDGraph" where
  "update_edge e f hasse =
     hasse\<lparr>hd_edges :=
       map (\<lambda>(k, p). if k = e then (k, p\<lparr>signedcharacters := f (signedcharacters p)\<rparr>) else (k, p))
         (hd_edges hasse)\<rparr>"

text \<open>hdgraph.cpp, \<^verbatim>\<open>add_vertex(species, characters, hasse)\<close>.\<close>

definition add_vertex :: "string list \<Rightarrow> string list \<Rightarrow> HDGraph \<Rightarrow> HDVertex \<times> HDGraph" where
  "add_vertex sp ch hasse =
     (let (v, hasse1) = boost_add_vertex hasse;
          hasse2 = hasse1\<lparr>hd_vertices := (hd_vertices hasse1)[v := (hd_vertices hasse1 ! v)\<lparr>species := sp\<rparr>]\<rparr>;
          hasse3 = hasse2\<lparr>hd_vertices := (hd_vertices hasse2)[v := (hd_vertices hasse2 ! v)\<lparr>characters := ch\<rparr>]\<rparr>
      in (v, hasse3))"

text \<open>hdgraph.hpp, the overload of \<^verbatim>\<open>add_vertex\<close> taking one species name.\<close>

definition add_vertex1 :: "string \<Rightarrow> string list \<Rightarrow> HDGraph \<Rightarrow> HDVertex \<times> HDGraph" where
  "add_vertex1 sp ch hasse = add_vertex [sp] ch hasse"

text \<open>hdgraph.cpp, \<^verbatim>\<open>add_edge(u, v, signedcharacters, hasse)\<close>.\<close>

definition add_edge ::
  "HDVertex \<Rightarrow> HDVertex \<Rightarrow> SignedCharacter list \<Rightarrow> HDGraph \<Rightarrow> (HDEdge \<times> bool) \<times> HDGraph" where
  "add_edge u v scs hasse =
     (let ((e, exists), hasse1) = boost_add_edge u v hasse;
          hasse2 = update_edge e (\<lambda>_. scs) hasse1
      in ((e, exists), hasse2))"

text \<open>hdgraph.hpp, \<^verbatim>\<open>num_vertices(hasse)\<close>: reads the graph bundle.\<close>

definition num_vertices :: "HDGraph \<Rightarrow> nat" where
  "num_vertices hasse = num_v hasse"

text \<open>A sequence of calls of \<open>add_vertex\<close>, each with its species and characters.\<close>

definition add_vertices :: "(string list \<times> string list) list \<Rightarrow> HDGraph \<Rightarrow> HDGraph" where
  "add_vertices calls hasse = foldl (\<lambda>h (sp, ch). snd (add_vertex sp ch h)) hasse calls"

section \<open>Inclusion of character lists (hdgraph.cpp)\<close>

text \<open>
  \<^verbatim>\<open>is_included(a, b)\<close>: the loop over \<open>a\<close> leaves with false at the first string that
  \<^verbatim>\<open>std::find\<close> does not find in \<open>b\<close>.
\<close>

fun is_included :: "string list \<Rightarrow> string list \<Rightarrow> bool" where
  "is_included [] b = True"
| "is_included (i # a) b = (if find (\<lambda>x. x = i) b = None then False else is_included a b)"

section \<open>The red-black graph as \<open>hasse_diagram\<close> reads it\<close>

text \<open>
  rbgraph.hpp is not among the sources. \<open>hasse_diagram\<close> reads a red-black graph only
  through \<^verbatim>\<open>vertices(g)\<close>, \<^verbatim>\<open>is_species(v, g)\<close>, \<^verbatim>\<open>out_edges(v, g)\<close> with
  \<^verbatim>\<open>target\<close>, \<^verbatim>\<open>g[v].name\<close> and \<^verbatim>\<open>num_species(g)\<close>; the record below holds exactly
  these observations and is a parameter of the embedding: the vertex descriptors in
  iteration order, the bundled properties of each vertex, the targets of the out-edges of
  each vertex in iteration order, and the species counter of the graph bundle (the field
  that the test program sets with \<^verbatim>\<open>g[boost::graph_bundle].num_species = 3\<close>).
\<close>

datatype Type = SPECIES | CHARACTER

record RBVertexProperties =
  name :: string
  type :: Type

type_synonym RBVertex = nat

record RBGraph =
  rb_vertices :: "RBVertex list"
  rb_bundle :: "RBVertex \<Rightarrow> RBVertexProperties"
  rb_out_edges :: "RBVertex \<Rightarrow> RBVertex list"
  rb_num_species :: nat

text \<open>
  Modelled from the spec: \<^verbatim>\<open>is_species(v)\<close> is declared in rbgraph.hpp, which is missing;
  the spec says it decides "by kind".
\<close>

definition is_species :: "RBVertex \<Rightarrow> RBGraph \<Rightarrow> bool" where
  "is_species v g = (type (rb_bundle g v) = SPECIES)"

text \<open>
  Modelled from the spec: \<^verbatim>\<open>num_species(g)\<close> is declared in rbgraph.hpp, which is missing;
  it is taken to read the counter of the graph bundle.
\<close>

definition num_species :: "RBGraph \<Rightarrow> nat" where
  "num_species g = rb_num_species g"

text \<open>
  Modelled from the spec: the comparator \<^verbatim>\<open>ascending_size\<close> is declared in rbgraph.hpp,
  which is missing; the spec says "Sort species by |C(s)| ascending".
\<close>

definition ascending_size :: "RBVertex list \<Rightarrow> RBVertex list \<Rightarrow> bool" where
  "ascending_size a b = (length a < length b)"

text \<open>
  \<^verbatim>\<open>std::sort(sets.begin(), sets.end(), ascending_size)\<close> is not stable: the order of two
  lists of the same size is left to the library. The sort is therefore a parameter of
  \<open>hasse_diagram\<close>, and \<open>std_sort_contract\<close> states what the C++ standard promises of
  it on an input: a permutation that is ordered by the comparator.
\<close>

definition std_sort_contract ::
  "(RBVertex list list \<Rightarrow> RBVertex list list) \<Rightarrow> RBVertex list list \<Rightarrow> bool" where
  "std_sort_contract std_sort sets =
     (mset (std_sort sets) = mset sets
      \<and> sorted_wrt (\<lambda>a b. \<not> ascending_size b a) (std_sort sets))"

section \<open>Building the Hasse diagram (hdgraph.cpp, \<open>hasse_diagram\<close>)\<close>

subsection \<open>Lines 135-172: one list per species\<close>

text \<open>
  \<^verbatim>\<open>v_map[S]\<close> with \<^verbatim>\<open>std::map::operator[]\<close>: a key that is not in the map reads as the
  empty list.
\<close>

definition v_map_at :: "(RBVertex \<rightharpoonup> RBVertex list) \<Rightarrow> RBVertex \<Rightarrow> RBVertex list" where
  "v_map_at v_map v = (case v_map v of None \<Rightarrow> [] | Some l \<Rightarrow> l)"

fun out_edges_loop ::
  "nat \<Rightarrow> RBVertex \<Rightarrow> RBVertex list \<Rightarrow> RBVertex list list \<times> (RBVertex \<rightharpoonup> RBVertex list)
     \<Rightarrow> RBVertex list list \<times> (RBVertex \<rightharpoonup> RBVertex list)" where
  "out_edges_loop index v [] (sets, v_map) = (sets, v_map)"
| "out_edges_loop index v (vt # es) (sets, v_map) =
     out_edges_loop index v es
       (sets[index := sets ! index @ [vt]], v_map(v \<mapsto> v_map_at v_map v @ [vt]))"

text \<open>
  The vector \<open>sets\<close> has \<^verbatim>\<open>num_species(g)\<close> elements; \<^verbatim>\<open>sets[index]\<close> beyond its end is
  undefined behaviour in C++, which the embedding returns as \<open>None\<close>.
\<close>

fun vertices_loop ::
  "RBGraph \<Rightarrow> RBVertex list \<Rightarrow> nat \<Rightarrow> RBVertex list list \<Rightarrow> (RBVertex \<rightharpoonup> RBVertex list)
     \<Rightarrow> (RBVertex list list \<times> (RBVertex \<rightharpoonup> RBVertex list)) option" where
  "vertices_loop g [] index sets v_map = Some (sets, v_map)"
| "vertices_loop g (v # vs) index sets v_map =
     (if \<not> is_species v g then vertices_loop g vs index sets v_map
      else if index < length sets then
        (let sets1 = sets[index := sets ! index @ [v]];
             (sets2, v_map2) = out_edges_loop index v (rb_out_edges g v) (sets1, v_map)
         in vertices_loop g vs (index + 1) sets2 v_map2)
      else None)"

subsection \<open>Lines 217-336: one species against the vertices built so far\<close>

text \<open>Lines 263-276: the pairs (source, missing character) for one vertex of the diagram.\<close>

definition collect_new_edges ::
  "HDVertex \<Rightarrow> string list \<Rightarrow> string list \<Rightarrow> (HDVertex \<times> string) list \<Rightarrow> (HDVertex \<times> string) list" where
  "collect_new_edges hdv lhdv lcv new_edges =
     (if is_included lhdv lcv
      then new_edges @ map (\<lambda>ci. (hdv, ci)) (filter (\<lambda>ci. find (\<lambda>x. x = ci) lhdv = None) lcv)
      else new_edges)"

text \<open>
  Lines 290-325: each pair adds its edge with the two-vertex \<^verbatim>\<open>add_edge\<close> of the graph
  library (which returns the edge that is already there) and appends one gained character
  to the label of that edge.
\<close>

fun add_new_edges :: "HDVertex \<Rightarrow> (HDVertex \<times> string) list \<Rightarrow> HDGraph \<Rightarrow> HDGraph" where
  "add_new_edges u [] hasse = hasse"
| "add_new_edges u (ei # rest) hasse =
     (let ((edge, _), hasse1) = boost_add_edge (fst ei) u hasse;
          hasse2 = update_edge edge (\<lambda>l. l @ [\<lparr>character = snd ei, state = gain\<rparr>]) hasse1
      in add_new_edges u rest hasse2)"

text \<open>
  Lines 225-336: the loop over the vertices of the diagram. It leaves at the first vertex
  with the same list of characters (the species is appended to it), and on the last vertex
  it adds the new vertex and its in-edges.
\<close>

fun hdv_loop ::
  "string \<Rightarrow> string list \<Rightarrow> HDVertex list \<Rightarrow> (HDVertex \<times> string) list \<Rightarrow> HDGraph \<Rightarrow> HDGraph" where
  "hdv_loop name_v lcv [] new_edges hasse = hasse"
| "hdv_loop name_v lcv (hdv # rest) new_edges hasse =
     (if lcv = characters (hd_vertices hasse ! hdv) then
        hasse\<lparr>hd_vertices := (hd_vertices hasse)
          [hdv := (hd_vertices hasse ! hdv)\<lparr>species := species (hd_vertices hasse ! hdv) @ [name_v]\<rparr>]\<rparr>
      else
        (let lhdv = characters (hd_vertices hasse ! hdv);
             new_edges1 = collect_new_edges hdv lhdv lcv new_edges
         in if rest = [] then
              (let (u, hasse1) = add_vertex1 name_v lcv hasse
               in add_new_edges u new_edges1 hasse1)
            else hdv_loop name_v lcv rest new_edges1 hasse))"

subsection \<open>Lines 181-341: the loop over the sorted lists\<close>

text \<open>
  \<^verbatim>\<open>sets[i].front()\<close> of an empty list is undefined behaviour in C++, returned as
  \<open>None\<close>. The argument \<open>i\<close> is the loop index of the first list of the remaining ones.
\<close>

fun build_loop ::
  "RBGraph \<Rightarrow> (RBVertex \<rightharpoonup> RBVertex list) \<Rightarrow> RBVertex list list \<Rightarrow> nat \<Rightarrow> HDGraph \<Rightarrow> HDGraph option" where
  "build_loop g v_map [] i hasse = Some hasse"
| "build_loop g v_map (s # rest) i hasse =
     (case s of
        [] \<Rightarrow> None
      | v # _ \<Rightarrow>
          (let lcv = map (\<lambda>cv. name (rb_bundle g cv)) (v_map_at v_map v) in
           if i = 0 then
             build_loop g v_map rest (i + 1) (snd (add_vertex1 (name (rb_bundle g v)) lcv hasse))
           else
             build_loop g v_map rest (i + 1)
               (hdv_loop (name (rb_bundle g v)) lcv [0..<length (hd_vertices hasse)] [] hasse)))"

subsection \<open>Lines 348-381: transitive reduction\<close>

definition source :: "HDEdge \<Rightarrow> HDVertex" where
  "source e = fst e"

definition target :: "HDEdge \<Rightarrow> HDVertex" where
  "target e = snd e"

definition in_edges :: "HDVertex \<Rightarrow> HDGraph \<Rightarrow> HDEdge list" where
  "in_edges u hasse = filter (\<lambda>e. target e = u) (hd_keys hasse)"

definition out_edges :: "HDVertex \<Rightarrow> HDGraph \<Rightarrow> HDEdge list" where
  "out_edges u hasse = filter (\<lambda>e. source e = u) (hd_keys hasse)"

definition in_degree :: "HDVertex \<Rightarrow> HDGraph \<Rightarrow> nat" where
  "in_degree u hasse = length (in_edges u hasse)"

definition out_degree :: "HDVertex \<Rightarrow> HDGraph \<Rightarrow> nat" where
  "out_degree u hasse = length (out_edges u hasse)"

text \<open>\<^verbatim>\<open>edge(u, v, hasse)\<close>: the descriptor and whether the edge is in the graph.\<close>

definition edge :: "HDVertex \<Rightarrow> HDVertex \<Rightarrow> HDGraph \<Rightarrow> HDEdge \<times> bool" where
  "edge u v hasse = ((u, v), (u, v) \<in> set (hd_keys hasse))"

definition remove_edge :: "HDEdge \<Rightarrow> HDGraph \<Rightarrow> HDGraph" where
  "remove_edge e hasse = hasse\<lparr>hd_edges := filter (\<lambda>(k, p). k \<noteq> e) (hd_edges hasse)\<rparr>"

text \<open>
  The range of in-edges of \<open>u\<close> is read once (line 357) and the range of its out-edges once
  for each in-edge (line 361). The edge that the loop removes goes from the source of an
  in-edge of \<open>u\<close> to the target of an out-edge of \<open>u\<close>, so it is an edge at \<open>u\<close> only if
  \<open>u\<close> has a loop edge; the embedding walks the in-edges as they were read.
\<close>

fun out_edge_loop :: "HDEdge \<Rightarrow> HDEdge list \<Rightarrow> HDGraph \<Rightarrow> HDGraph" where
  "out_edge_loop ie [] hasse = hasse"
| "out_edge_loop ie (oe # rest) hasse =
     (let (e, exists) = edge (source ie) (target oe) hasse in
      if \<not> exists then out_edge_loop ie rest hasse
      else out_edge_loop ie rest (remove_edge e hasse))"

fun in_edge_loop :: "HDVertex \<Rightarrow> HDEdge list \<Rightarrow> HDGraph \<Rightarrow> HDGraph" where
  "in_edge_loop u [] hasse = hasse"
| "in_edge_loop u (ie # rest) hasse =
     in_edge_loop u rest (out_edge_loop ie (out_edges u hasse) hasse)"

fun reduction_loop :: "HDVertex list \<Rightarrow> HDGraph \<Rightarrow> HDGraph" where
  "reduction_loop [] hasse = hasse"
| "reduction_loop (u # rest) hasse =
     (if in_degree u hasse = 0 \<or> out_degree u hasse = 0 then reduction_loop rest hasse
      else reduction_loop rest (in_edge_loop u (in_edges u hasse) hasse))"

subsection \<open>The whole function\<close>

definition hasse_diagram ::
  "(RBVertex list list \<Rightarrow> RBVertex list list) \<Rightarrow> HDGraph \<Rightarrow> RBGraph \<Rightarrow> HDGraph option" where
  "hasse_diagram std_sort hasse g =
     (case vertices_loop g (rb_vertices g) 0 (replicate (num_species g) []) Map.empty of
        None \<Rightarrow> None
      | Some (sets, v_map) \<Rightarrow>
          (case build_loop g v_map (std_sort sets) 0 hasse of
             None \<Rightarrow> None
           | Some hasse1 \<Rightarrow>
               Some (reduction_loop [0..<length (hd_vertices hasse1)] hasse1)))"

section \<open>The command line program (main.cpp)\<close>

text \<open>
  What the program writes is a list of chunks, each on standard output or standard error,
  in the order in which they are written.
\<close>

datatype stream = Cout | Cerr

type_synonym printed = "(stream \<times> string) list"

definition endl :: string where
  "endl = [CHR 0x0A]"

definition carriage_return :: string where
  "carriage_return = [CHR 0x0D]"

text \<open>
  The variables map of the option parser: for each option that has a value, the value and
  whether it is the default of the option rather than given on the command line.
\<close>

datatype option_value = Switch bool | Names "string list"

record variable_value =
  as_value :: option_value
  defaulted :: bool

type_synonym variables_map = "string \<rightharpoonup> variable_value"

text \<open>\<^verbatim>\<open>vm.count(opt)\<close>: 1 when the option is in the map, 0 otherwise.\<close>

definition vm_count :: "variables_map \<Rightarrow> string \<Rightarrow> nat" where
  "vm_count vm opt = (case vm opt of None \<Rightarrow> 0 | Some _ \<Rightarrow> 1)"

text \<open>
  \<^verbatim>\<open>conflicting_options(vm, opt1, opt2)\<close>: throws \<^verbatim>\<open>std::logic_error\<close> with the message
  below (\<open>Inl\<close>) when both options are in the map and neither is defaulted.
\<close>

definition conflicting_options :: "variables_map \<Rightarrow> string \<Rightarrow> string \<Rightarrow> string + unit" where
  "conflicting_options vm opt1 opt2 =
     (if vm_count vm opt1 \<noteq> 0 \<and> \<not> defaulted (the (vm opt1)) \<and>
         vm_count vm opt2 \<noteq> 0 \<and> \<not> defaulted (the (vm opt2))
      then Inl (''conflicting options --'' @ opt1 @ '' and --'' @ opt2)
      else Inr ())"

text \<open>
  The collaborators of \<open>main\<close> that are not among the sources are parameters:
  the option parser of the library (\<open>store_command_line\<close>: the variables map, or the
  message of the exception it throws), the usage text it prints, \<open>read_graph\<close> (the graph,
  or the message of the exception), \<open>reduce\<close>, the verifier \<open>check_reduction\<close> run
  in the embedded interpreter (\<open>None\<close> when the interpreter raises instead of returning),
  and the message of a default-constructed \<^verbatim>\<open>NoReduction\<close>.
\<close>

datatype reduce_outcome =
  Returns "SignedCharacter list"
| Throws_NoReduction string
| Throws_other

record World =
  store_command_line :: "string list \<Rightarrow> string + variables_map"
  usage :: string
  read_graph :: "string \<Rightarrow> string + RBGraph"
  reduce :: "RBGraph \<Rightarrow> reduce_outcome"
  check_reduction :: "string \<Rightarrow> string \<Rightarrow> bool option"
  NoReduction_what :: string

text \<open>Lines 141-145: every signed character of the sequence followed by one space.\<close>

definition reduction_string :: "SignedCharacter list \<Rightarrow> string" where
  "reduction_string output = concat (map (\<lambda>sc. show_SignedCharacter sc @ '' '') output)"

text \<open>
  Lines 119-167, the body of the loop over the files. The second component is false when an
  exception that \<open>main\<close> does not catch leaves the loop and ends the program: the handler
  around \<open>read_graph\<close> catches \<^verbatim>\<open>std::exception\<close>, the handler around the reduction
  and its verification catches \<^verbatim>\<open>NoReduction\<close> only.
\<close>

definition process_file :: "World \<Rightarrow> bool \<Rightarrow> string \<Rightarrow> printed \<times> bool" where
  "process_file w logging_enabled file =
     (let out0 = [(Cout, ''File ('' @ file @ '')'')] in
      case read_graph w file of
        Inl what \<Rightarrow>
          (out0 @ [(Cerr, carriage_return @ ''No ('' @ file @ '') '' @ what @ endl)], True)
      | Inr g \<Rightarrow>
          (let out1 = out0 @ (if logging_enabled then [(Cout, endl)] else []) in
           case reduce w g of
             Throws_other \<Rightarrow> (out1, False)
           | Throws_NoReduction what \<Rightarrow>
               (out1 @ [(Cout, carriage_return @ ''No ('' @ file @ '') '' @ what @ endl)], True)
           | Returns output \<Rightarrow>
               (let reduction = reduction_string output in
                case check_reduction w file reduction of
                  None \<Rightarrow> (out1, False)
                | Some pycheck \<Rightarrow>
                    if \<not> pycheck then
                      (out1 @ [(Cout, carriage_return @ ''No ('' @ file @ '') ''
                                        @ NoReduction_what w @ endl)], True)
                    else
                      (out1 @ [(Cout, carriage_return @ ''Ok ('' @ file @ '') < ''
                                        @ reduction @ ''>'' @ endl)], True))))"

fun files_loop :: "World \<Rightarrow> bool \<Rightarrow> string list \<Rightarrow> printed \<times> bool" where
  "files_loop w logging_enabled [] = ([], True)"
| "files_loop w logging_enabled (file # rest) =
     (let (out, continues) = process_file w logging_enabled file in
      if continues then
        (let (out_rest, completes) = files_loop w logging_enabled rest
         in (out @ out_rest, completes))
      else (out, False))"

text \<open>
  The values that \<^verbatim>\<open>notify\<close> stores: the switch \<^verbatim>\<open>logging::enabled\<close> from the option
  \<^verbatim>\<open>verbose\<close> and the vector \<^verbatim>\<open>files\<close> from the positional option.
\<close>

definition switch_value :: "variables_map \<Rightarrow> string \<Rightarrow> bool" where
  "switch_value vm opt =
     (case vm opt of Some vv \<Rightarrow> (case as_value vv of Switch b \<Rightarrow> b | Names _ \<Rightarrow> False)
      | None \<Rightarrow> False)"

definition names_value :: "variables_map \<Rightarrow> string \<Rightarrow> string list" where
  "names_value vm opt =
     (case vm opt of Some vv \<Rightarrow> (case as_value vv of Names fs \<Rightarrow> fs | Switch _ \<Rightarrow> [])
      | None \<Rightarrow> [])"

definition options_error :: "string \<Rightarrow> string \<Rightarrow> printed" where
  "options_error argv0 what =
     [(Cerr, ''Error: '' @ what @ ''.'' @ endl
             @ ''Try '' @ [CHR 0x27] @ argv0 @ '' --help'' @ [CHR 0x27]
             @ '' for more information.'' @ endl)]"

text \<open>
  \<open>main\<close>: the output and the exit code, \<open>None\<close> when an uncaught exception ends the
  program. \<open>argv0\<close> is \<^verbatim>\<open>argv[0]\<close>, \<open>args\<close> the other arguments.
\<close>

definition main :: "World \<Rightarrow> string \<Rightarrow> string list \<Rightarrow> printed \<times> nat option" where
  "main w argv0 args =
     (case store_command_line w args of
        Inl what \<Rightarrow> (options_error argv0 what, Some 1)
      | Inr vm \<Rightarrow>
          (case conflicting_options vm ''exponential'' ''interactive'' of
             Inl what \<Rightarrow> (options_error argv0 what, Some 1)
           | Inr _ \<Rightarrow>
               if vm_count vm ''help'' \<noteq> 0 then ([(Cerr, usage w @ endl)], Some 1)
               else if \<not> (vm_count vm ''files'' \<noteq> 0) then
                 (options_error argv0 ''No input file specified'', Some 1)
               else
                 (let (out, completes) =
                        files_loop w (switch_value vm ''verbose'') (names_value vm ''files'')
                  in (out, if completes then Some 0 else None))))"

text \<open>
  A file fails with a reason when \<open>read_graph\<close> throws (the reason is the message), when
  \<open>reduce\<close> throws \<^verbatim>\<open>NoReduction\<close> (the reason is its message), or when the verifier
  returns false (the reason is the message of a default-constructed \<^verbatim>\<open>NoReduction\<close>).
\<close>

definition file_fails :: "World \<Rightarrow> string \<Rightarrow> string \<Rightarrow> bool" where
  "file_fails w file reason =
     (case read_graph w file of
        Inl what \<Rightarrow> reason = what
      | Inr g \<Rightarrow>
          (case reduce w g of
             Throws_NoReduction what \<Rightarrow> reason = what
           | Throws_other \<Rightarrow> False
           | Returns output \<Rightarrow>
               check_reduction w file (reduction_string output) = Some False
               \<and> reason = NoReduction_what w))"

section \<open>Notions for the statements about the diagram\<close>

text \<open>
  The label of gained characters for a list of names.
\<close>

definition gains :: "string list \<Rightarrow> SignedCharacter list" where
  "gains cs = map (\<lambda>c. \<lparr>character = c, state = gain\<rparr>) cs"

text \<open>
  The edges of a diagram as a relation on its vertices.
\<close>

definition edge_set :: "HDGraph \<Rightarrow> (HDVertex \<times> HDVertex) set" where
  "edge_set hasse = set (hd_keys hasse)"

text \<open>
  What the vector \<open>sets\<close> holds after lines 135-172: for each species, in the order of the
  vertices, the species followed by the targets of its out-edges.
\<close>

definition species_sets :: "RBGraph \<Rightarrow> RBVertex list list" where
  "species_sets g =
     map (\<lambda>v. v # rb_out_edges g v) (filter (\<lambda>v. is_species v g) (rb_vertices g))"

text \<open>
  The species counter of the graph is the number of its species vertices: then every
  \<^verbatim>\<open>sets[index]\<close> is in range and no list of \<open>sets\<close> stays empty.
\<close>

definition counts_species :: "RBGraph \<Rightarrow> bool" where
  "counts_species g = (num_species g = length (filter (\<lambda>v. is_species v g) (rb_vertices g)))"

text \<open>
  Some vertex of the diagram has the character list \<open>lcv\<close> and lists the species \<open>name_v\<close>.
\<close>

definition covers :: "HDGraph \<Rightarrow> string \<Rightarrow> string list \<Rightarrow> bool" where
  "covers hasse name_v lcv =
     (\<exists>hv \<in> set (hd_vertices hasse). characters hv = lcv \<and> name_v \<in> set (species hv))"

text \<open>
  The names of the characters adjacent to a species, in the order of its out-edges (the list
  \<open>lcv\<close> of line 187).
\<close>

definition lcv_of :: "RBGraph \<Rightarrow> RBVertex \<Rightarrow> string list" where
  "lcv_of g v = map (\<lambda>cv. name (rb_bundle g cv)) (rb_out_edges g v)"

text \<open>
  The sorted list (strings in lexicographic order) of the names in \<open>cv\<close> that are not in \<open>cu\<close>.
\<close>

definition sorted_difference :: "string list \<Rightarrow> string list \<Rightarrow> string list" where
  "sorted_difference cv cu = sort (remdups (filter (\<lambda>c. c \<notin> set cu) cv))"

section \<open>Notions for the invariants of \<open>hasse_diagram\<close>\<close>

text \<open>
  The label stored for an edge descriptor, if the edge is in the diagram.
\<close>

definition edge_label :: "HDGraph \<Rightarrow> HDEdge \<Rightarrow> SignedCharacter list option" where
  "edge_label hasse k = map_option signedcharacters (map_of (hd_edges hasse) k)"

text \<open>
  \<^verbatim>\<open>hasse[v].characters\<close>.
\<close>

definition chars_of :: "HDGraph \<Rightarrow> HDVertex \<Rightarrow> string list" where
  "chars_of hasse v = characters (hd_vertices hasse ! v)"

text \<open>
  What the build leaves on the pair (u, v): an edge exactly when u was inserted before v and
  the characters of u are strictly included in those of v, labelled with the names of v that
  u lacks, in the order of v.
\<close>

definition expected_label :: "HDGraph \<Rightarrow> HDEdge \<Rightarrow> SignedCharacter list option" where
  "expected_label hasse k =
     (if fst k < snd k \<and> snd k < length (hd_vertices hasse)
         \<and> set (chars_of hasse (fst k)) \<subset> set (chars_of hasse (snd k))
      then Some (gains (filter (\<lambda>c. c \<notin> set (chars_of hasse (fst k))) (chars_of hasse (snd k))))
      else None)"

text \<open>
  The invariant of the loop over the sorted lists: at most one edge for each pair, and every
  pair carries what \<open>expected_label\<close> says.
\<close>

definition build_inv :: "HDGraph \<Rightarrow> bool" where
  "build_inv hasse = (distinct (hd_keys hasse) \<and> (\<forall>k. edge_label hasse k = expected_label hasse k))"

text \<open>
  The names that the collected pairs give to the edge \<open>k\<close> into the new vertex \<open>u\<close>.
\<close>

definition labels_for :: "HDVertex \<Rightarrow> (HDVertex \<times> string) list \<Rightarrow> HDEdge \<Rightarrow> string list" where
  "labels_for u new_edges k = map snd (filter (\<lambda>ei. (fst ei, u) = k) new_edges)"

text \<open>
  The pairs collected over a range of vertices of the diagram.
\<close>

definition contributions :: "HDGraph \<Rightarrow> string list \<Rightarrow> HDVertex list \<Rightarrow> (HDVertex \<times> string) list" where
  "contributions hasse lcv ks =
     concat (map (\<lambda>hdv. collect_new_edges hdv (chars_of hasse hdv) lcv []) ks)"

text \<open>
  Lines 245-255: the species is appended to the vertex \<open>hdv\<close>.
\<close>

definition append_species :: "HDVertex \<Rightarrow> string \<Rightarrow> HDGraph \<Rightarrow> HDGraph" where
  "append_species hdv name_v hasse =
     hasse\<lparr>hd_vertices := (hd_vertices hasse)
       [hdv := (hd_vertices hasse ! hdv)\<lparr>species := species (hd_vertices hasse ! hdv) @ [name_v]\<rparr>]\<rparr>"

text \<open>
  Lines 280-327: the new vertex and its in-edges.
\<close>

definition add_step :: "string \<Rightarrow> string list \<Rightarrow> HDGraph \<Rightarrow> HDGraph" where
  "add_step nm lcv h =
     add_new_edges (length (hd_vertices h)) (contributions h lcv [0..<length (hd_vertices h)])
       (snd (add_vertex1 nm lcv h))"

text \<open>
  The body of the loop of lines 351-381 for one vertex.
\<close>

definition reduction_step :: "HDVertex \<Rightarrow> HDGraph \<Rightarrow> HDGraph" where
  "reduction_step u hasse =
     (if in_degree u hasse = 0 \<or> out_degree u hasse = 0 then hasse
      else in_edge_loop u (in_edges u hasse) hasse)"

text \<open>
  What \<open>v_map\<close> holds after lines 135-172.
\<close>

fun v_map_after ::
  "RBGraph \<Rightarrow> RBVertex list \<Rightarrow> (RBVertex \<rightharpoonup> RBVertex list) \<Rightarrow> (RBVertex \<rightharpoonup> RBVertex list)" where
  "v_map_after g [] v_map = v_map"
| "v_map_after g (v # vs) v_map =
     (if is_species v g then
        v_map_after g vs
          (if rb_out_edges g v = [] then v_map
           else v_map(v \<mapsto> v_map_at v_map v @ rb_out_edges g v))
      else v_map_after g vs v_map)"

section \<open>Example inputs\<close>

definition hd_empty :: HDGraph where
  "hd_empty = \<lparr>hd_vertices = [], hd_edges = [], num_v = 0\<rparr>"

definition hd_example :: HDGraph where
  "hd_example =
     \<lparr>hd_vertices = [\<lparr>species = [''s1''], characters = [''c1'']\<rparr>,
                     \<lparr>species = [''s2''], characters = [''c1'', ''c2'']\<rparr>],
      hd_edges = [((0, 1), \<lparr>signedcharacters = [\<lparr>character = ''c9'', state = lose\<rparr>]\<rparr>)],
      num_v = 2\<rparr>"

text \<open>
  A red-black graph from the list of its vertices: name, kind and the targets of the
  out-edges; the descriptor of a vertex is its position.
\<close>

definition mk_graph :: "(string \<times> Type \<times> RBVertex list) list \<Rightarrow> RBGraph" where
  "mk_graph vs =
     \<lparr>rb_vertices = [0..<length vs],
      rb_bundle = (\<lambda>v. \<lparr>name = fst (vs ! v), type = fst (snd (vs ! v))\<rparr>),
      rb_out_edges = (\<lambda>v. snd (snd (vs ! v))),
      rb_num_species = length (filter (\<lambda>e. fst (snd e) = SPECIES) vs)\<rparr>"

text \<open>Scenario S3: two species, both adjacent to c1 and c2.\<close>

definition g_S3 :: RBGraph where
  "g_S3 = mk_graph [(''s1'', SPECIES, [2, 3]), (''s2'', SPECIES, [2, 3]),
                    (''c1'', CHARACTER, [0, 1]), (''c2'', CHARACTER, [0, 1])]"

text \<open>Scenario S4: three species with the characters c1; c1, c2; c1, c2, c3.\<close>

definition g_S4 :: RBGraph where
  "g_S4 = mk_graph [(''s1'', SPECIES, [3]), (''s2'', SPECIES, [3, 4]), (''s3'', SPECIES, [3, 4, 5]),
                    (''c1'', CHARACTER, [0, 1, 2]), (''c2'', CHARACTER, [1, 2]),
                    (''c3'', CHARACTER, [2])]"

text \<open>Two species, the second with the characters c1, c2 and c10 in the order of their vertices.\<close>

definition g_c10 :: RBGraph where
  "g_c10 = mk_graph [(''s1'', SPECIES, [2]), (''s2'', SPECIES, [2, 3, 4]),
                     (''c1'', CHARACTER, [0, 1]), (''c2'', CHARACTER, [1]),
                     (''c10'', CHARACTER, [1])]"

text \<open>
  A world for the examples: the parser sets the two switches from \<^verbatim>\<open>-x\<close> and \<^verbatim>\<open>-i\<close>
  and takes the other arguments as files; reading the file bad.txt fails; every other file
  holds the graph of scenario S3, which reduces; the verifier accepts the file a.txt only.
\<close>

definition world_example :: World where
  "world_example =
     \<lparr>store_command_line = (\<lambda>args.
        Inr ((\<lambda>opt. None)
          (''verbose'' \<mapsto> \<lparr>as_value = Switch False, defaulted = True\<rparr>,
           ''exponential'' \<mapsto> \<lparr>as_value = Switch (''-x'' \<in> set args), defaulted = (''-x'' \<notin> set args)\<rparr>,
           ''interactive'' \<mapsto> \<lparr>as_value = Switch (''-i'' \<in> set args), defaulted = (''-i'' \<notin> set args)\<rparr>,
           ''files'' \<mapsto> \<lparr>as_value = Names (filter (\<lambda>a. a \<noteq> ''-x'' \<and> a \<noteq> ''-i'') args), defaulted = False\<rparr>))),
      usage = ''Usage: ppp [OPTION...] FILE...'',
      read_graph = (\<lambda>file. if file = ''bad.txt'' then Inl ''Failed to read graph from file'' else Inr g_S3),
      reduce = (\<lambda>g. if rb_num_species g = 2 then Returns [\<lparr>character = ''c1'', state = gain\<rparr>, \<lparr>character = ''c2'', state = lose\<rparr>] else Throws_NoReduction ''Could not reduce graph''),
      check_reduction = (\<lambda>file reduction. Some (file = ''a.txt'')),
      NoReduction_what = ''Could not reduce graph''\<rparr>"

text \<open>
  The diagram of scenario S3.
\<close>

definition hd_S3 :: HDGraph where
  "hd_S3 = \<lparr>hd_vertices = [\<lparr>species = [''s1'', ''s2''], characters = [''c1'', ''c2'']\<rparr>],
            hd_edges = [], num_v = 0\<rparr>"

text \<open>
  The diagram of scenario S4.
\<close>

definition hd_S4 :: HDGraph where
  "hd_S4 =
     \<lparr>hd_vertices = [\<lparr>species = [''s1''], characters = [''c1'']\<rparr>,
                     \<lparr>species = [''s2''], characters = [''c1'', ''c2'']\<rparr>,
                     \<lparr>species = [''s3''], characters = [''c1'', ''c2'', ''c3'']\<rparr>],
      hd_edges = [((0, 1), \<lparr>signedcharacters = [\<lparr>character = ''c2'', state = gain\<rparr>]\<rparr>),
                  ((1, 2), \<lparr>signedcharacters = [\<lparr>character = ''c3'', state = gain\<rparr>]\<rparr>)],
      num_v = 0\<rparr>"

text \<open>
  The diagram of \<open>g_c10\<close>.
\<close>

definition hd_c10 :: HDGraph where
  "hd_c10 =
     \<lparr>hd_vertices = [\<lparr>species = [''s1''], characters = [''c1'']\<rparr>,
                     \<lparr>species = [''s2''], characters = [''c1'', ''c2'', ''c10'']\<rparr>],
      hd_edges = [((0, 1), \<lparr>signedcharacters = [\<lparr>character = ''c2'', state = gain\<rparr>,
                                                  \<lparr>character = ''c10'', state = gain\<rparr>]\<rparr>)],
      num_v = 0\<rparr>"

section \<open>Properties of \<open>is_included\<close>\<close>

lemma find_eq_None_iff: "find (\<lambda>x. x = i) b = None \<longleftrightarrow> i \<notin> set b"
  by (simp add: find_None_iff)

lemma is_included_subset: "is_included a b \<longleftrightarrow> set a \<subseteq> set b"
  by (induction a) (simp_all add: find_eq_None_iff)

text \<open>
  C9. \<open>is_included a b\<close> is true exactly when every element of \<open>a\<close> occurs in \<open>b\<close>;
  the empty list is included in every list; the relation is reflexive and transitive.
\<close>

theorem is_included_characterised:
  "(is_included a b \<longleftrightarrow> (\<forall>x \<in> set a. x \<in> set b))
   \<and> is_included [] b
   \<and> is_included a a
   \<and> (is_included a b \<and> is_included b c \<longrightarrow> is_included a c)"
  by (auto simp: is_included_subset)

theorem is_included_characterised_witness:
  "(is_included [''c1''] [''c1'', ''c2''] \<longleftrightarrow> (\<forall>x \<in> set [''c1'']. x \<in> set [''c1'', ''c2'']))
   \<and> is_included [] [''c1'', ''c2'']
   \<and> is_included [''c1''] [''c1'']
   \<and> is_included [''c1''] [''c1'', ''c2'']
   \<and> is_included [''c1'', ''c2''] [''c2'', ''c3'', ''c1'']
   \<and> is_included [''c1''] [''c2'', ''c3'', ''c1'']"
  using is_included_characterised [of "[''c1'']" "[''c1'', ''c2'']" "[''c2'', ''c3'', ''c1'']"]
  by simp

section \<open>Properties of the graph operations\<close>

lemma add_vertex_frame:
  "num_v (snd (add_vertex sp ch h)) = num_v h
   \<and> hd_edges (snd (add_vertex sp ch h)) = hd_edges h
   \<and> length (hd_vertices (snd (add_vertex sp ch h))) = Suc (length (hd_vertices h))"
  by (simp add: add_vertex_def boost_add_vertex_def Let_def)

lemma add_vertices_frame:
  "num_v (add_vertices calls h) = num_v h
   \<and> length (hd_vertices (add_vertices calls h)) = length (hd_vertices h) + length calls"
  unfolding add_vertices_def
  by (induction calls arbitrary: h) (simp_all add: add_vertex_frame split: prod.splits)

text \<open>
  C10. \<open>num_vertices\<close> returns the field \<open>num_v\<close> of the graph bundle, which
  \<open>add_vertex\<close> leaves as it is: no sequence of calls of \<open>add_vertex\<close> changes what
  \<open>num_vertices\<close> returns, while every call adds a vertex, so that the value need not be
  the number of vertices of the diagram.
\<close>

theorem num_vertices_frame:
  "num_vertices h = num_v h
   \<and> num_vertices (snd (add_vertex sp ch h)) = num_vertices h
   \<and> num_vertices (add_vertices calls h) = num_vertices h
   \<and> length (hd_vertices (add_vertices calls h)) = length (hd_vertices h) + length calls
   \<and> (calls \<noteq> [] \<and> num_vertices h = length (hd_vertices h) \<longrightarrow>
        num_vertices (add_vertices calls h) \<noteq> length (hd_vertices (add_vertices calls h)))"
  by (simp add: num_vertices_def add_vertex_frame add_vertices_frame)

theorem num_vertices_frame_witness:
  "num_vertices hd_empty = 0
   \<and> length (hd_vertices hd_empty) = 0
   \<and> num_vertices (add_vertices [([''s1''], [''c1''])] hd_empty) = 0
   \<and> length (hd_vertices (add_vertices [([''s1''], [''c1''])] hd_empty)) = 1"
  using num_vertices_frame [of hd_empty "[''s1'']" "[''c1'']" "[([''s1''], [''c1''])]"]
  by (simp add: hd_empty_def num_vertices_def)

lemma boost_add_edge_keys:
  "hd_keys (snd (boost_add_edge u v h)) =
     (if (u, v) \<in> set (hd_keys h) then hd_keys h else hd_keys h @ [(u, v)])"
  by (simp add: boost_add_edge_def hd_keys_def)

lemma update_edge_keys: "hd_keys (update_edge e f h) = hd_keys h"
  by (auto simp: update_edge_def hd_keys_def)

lemma update_edge_vertices: "hd_vertices (update_edge e f h) = hd_vertices h"
  by (simp add: update_edge_def)


lemma add_edge_eq:
  "add_edge u v scs h =
     (((u, v), (u, v) \<notin> set (hd_keys h)),
      update_edge (u, v) (\<lambda>_. scs) (snd (boost_add_edge u v h)))"
  by (simp add: add_edge_def boost_add_edge_def Let_def)

lemma update_edge_set:
  "set (hd_edges (update_edge e f h)) =
     (\<lambda>(k, p). if k = e then (k, p\<lparr>signedcharacters := f (signedcharacters p)\<rparr>) else (k, p))
       ` set (hd_edges h)"
  by (simp add: update_edge_def)


lemma filter_map_upd:
  "filter (\<lambda>(k, p). k \<noteq> e) (map (\<lambda>(k, p). if k = e then (k, g p) else (k, p)) xs)
     = filter (\<lambda>(k, p). k \<noteq> e) xs"
  by (induction xs) auto

lemma update_edge_filter_others:
  "filter (\<lambda>(k, p). k \<noteq> e) (hd_edges (update_edge e f h)) = filter (\<lambda>(k, p). k \<noteq> e) (hd_edges h)"
  by (simp add: update_edge_def filter_map_upd)

lemma boost_add_edge_filter_others:
  "filter (\<lambda>(k, p). k \<noteq> (u, v)) (hd_edges (snd (boost_add_edge u v h)))
     = filter (\<lambda>(k, p). k \<noteq> (u, v)) (hd_edges h)"
  by (simp add: boost_add_edge_def)

lemma boost_add_edge_vertices: "hd_vertices (snd (boost_add_edge u v h)) = hd_vertices h"
  by (simp add: boost_add_edge_def)

lemma update_edge_label:
  "(k, p) \<in> set (hd_edges (update_edge e (\<lambda>_. scs) h)) \<Longrightarrow> k = e \<Longrightarrow> signedcharacters p = scs"
  by (auto simp: update_edge_def split: if_splits)

lemma key_in_edges: "k \<in> set (hd_keys h) \<Longrightarrow> \<exists>p. (k, p) \<in> set (hd_edges h)"
  by (auto simp: hd_keys_def)

text \<open>
  C8. \<open>add_edge u v signedcharacters h\<close> never adds a second edge from \<open>u\<close> to \<open>v\<close>: when
  the edge is there it returns it with the flag false and the edges stay the same ones; in
  every case the label of the edge from \<open>u\<close> to \<open>v\<close> is the given list afterwards, whatever
  it was before, and the other edges and the vertices are unchanged.
\<close>

theorem add_edge_no_duplicate:
  assumes "add_edge u v scs h = ((e, inserted), h')"
  shows "e = (u, v)
   \<and> inserted = ((u, v) \<notin> set (hd_keys h))
   \<and> hd_keys h' = (if (u, v) \<in> set (hd_keys h) then hd_keys h else hd_keys h @ [(u, v)])
   \<and> (distinct (hd_keys h) \<longrightarrow> distinct (hd_keys h'))
   \<and> (\<exists>p. ((u, v), p) \<in> set (hd_edges h'))
   \<and> (\<forall>(k, p) \<in> set (hd_edges h'). k = (u, v) \<longrightarrow> signedcharacters p = scs)
   \<and> filter (\<lambda>(k, p). k \<noteq> (u, v)) (hd_edges h') = filter (\<lambda>(k, p). k \<noteq> (u, v)) (hd_edges h)
   \<and> hd_vertices h' = hd_vertices h"
proof -
  from assms have e: "e = (u, v)" and ins: "inserted = ((u, v) \<notin> set (hd_keys h))"
    and h': "h' = update_edge (u, v) (\<lambda>_. scs) (snd (boost_add_edge u v h))"
    by (auto simp: add_edge_eq)
  have keys: "hd_keys h' = (if (u, v) \<in> set (hd_keys h) then hd_keys h else hd_keys h @ [(u, v)])"
    by (simp add: h' update_edge_keys boost_add_edge_keys)
  have dist: "distinct (hd_keys h) \<longrightarrow> distinct (hd_keys h')"
    by (simp add: keys)
  have mem: "(u, v) \<in> set (hd_keys h')"
    by (simp add: keys)
  have ex: "\<exists>p. ((u, v), p) \<in> set (hd_edges h')"
    using mem by (rule key_in_edges)
  have lab: "\<forall>(k, p) \<in> set (hd_edges h'). k = (u, v) \<longrightarrow> signedcharacters p = scs"
    using update_edge_label [of _ _ "(u, v)" scs] by (auto simp: h')
  have oth: "filter (\<lambda>(k, p). k \<noteq> (u, v)) (hd_edges h') = filter (\<lambda>(k, p). k \<noteq> (u, v)) (hd_edges h)"
    by (simp add: h' update_edge_filter_others boost_add_edge_filter_others)
  have vs: "hd_vertices h' = hd_vertices h"
    by (simp add: h' update_edge_vertices boost_add_edge_vertices)
  from e ins keys dist ex lab oth vs show ?thesis by blast
qed

theorem add_edge_no_duplicate_witness:
  "add_edge 0 1 [\<lparr>character = ''c2'', state = gain\<rparr>] hd_example =
     (((0, 1), False),
      hd_example\<lparr>hd_edges := [((0, 1), \<lparr>signedcharacters = [\<lparr>character = ''c2'', state = gain\<rparr>]\<rparr>)]\<rparr>)
   \<and> hd_keys (snd (add_edge 0 1 [\<lparr>character = ''c2'', state = gain\<rparr>] hd_example)) = hd_keys hd_example
   \<and> distinct (hd_keys hd_example)
   \<and> distinct (hd_keys (snd (add_edge 0 1 [\<lparr>character = ''c2'', state = gain\<rparr>] hd_example)))"
  using add_edge_no_duplicate [of 0 1 "[\<lparr>character = ''c2'', state = gain\<rparr>]" hd_example "(0, 1)" False
      "hd_example\<lparr>hd_edges := [((0, 1), \<lparr>signedcharacters = [\<lparr>character = ''c2'', state = gain\<rparr>]\<rparr>)]\<rparr>"]
  by (simp add: add_edge_def boost_add_edge_def update_edge_def hd_keys_def hd_example_def)

section \<open>Properties of the command line program\<close>




text \<open>
  C5. When the reduction returns a sequence and the verifier returns false on the file and
  the sequence, the program prints \<open>No (file)\<close> with the message of \<^verbatim>\<open>NoReduction\<close>, and
  does not print the \<open>Ok\<close> chunk of the file.
\<close>

theorem verifier_false_reports_no:
  assumes "read_graph w file = Inr g"
    and "reduce w g = Returns output"
    and "check_reduction w file (reduction_string output) = Some False"
  shows "process_file w logging_enabled file =
           ([(Cout, ''File ('' @ file @ '')'')] @ (if logging_enabled then [(Cout, endl)] else [])
            @ [(Cout, carriage_return @ ''No ('' @ file @ '') '' @ NoReduction_what w @ endl)], True)
         \<and> (Cout, carriage_return @ ''Ok ('' @ file @ '') < '' @ reduction_string output @ ''>'' @ endl)
             \<notin> set (fst (process_file w logging_enabled file))"
  using assms by (simp add: process_file_def carriage_return_def endl_def)

theorem verifier_false_reports_no_witness:
  "process_file world_example False ''b.txt'' =
     ([(Cout, ''File (b.txt)''),
       (Cout, carriage_return @ ''No (b.txt) Could not reduce graph'' @ endl)], True)
   \<and> (Cout, carriage_return @ ''Ok (b.txt) < c1+ c2- >'' @ endl)
       \<notin> set (fst (process_file world_example False ''b.txt''))"
  using verifier_false_reports_no [of world_example "''b.txt''" g_S3
      "[\<lparr>character = ''c1'', state = gain\<rparr>, \<lparr>character = ''c2'', state = lose\<rparr>]" False]
  by (simp add: world_example_def g_S3_def mk_graph_def reduction_string_def
      show_SignedCharacter_def show_State_def)

lemma files_loop_Cons:
  "files_loop w lg (file # rest) =
     (if snd (process_file w lg file)
      then (fst (process_file w lg file) @ fst (files_loop w lg rest), snd (files_loop w lg rest))
      else (fst (process_file w lg file), False))"
  by (cases "process_file w lg file"; cases "files_loop w lg rest") simp

lemma files_loop_append:
  "files_loop w lg (xs @ ys) =
     (if snd (files_loop w lg xs)
      then (fst (files_loop w lg xs) @ fst (files_loop w lg ys), snd (files_loop w lg ys))
      else (fst (files_loop w lg xs), False))"
proof (induction xs)
  case Nil
  show ?case by simp
next
  case (Cons x xs)
  show ?case
    unfolding append_Cons files_loop_Cons [of w lg x] Cons.IH
    by simp
qed

lemma file_fails_process:
  assumes "file_fails w file reason"
  shows "snd (process_file w lg file)"
    and "\<exists>s. last (fst (process_file w lg file)) = (s, carriage_return @ ''No ('' @ file @ '') '' @ reason @ endl)"
  using assms
  by (auto simp: file_fails_def process_file_def split: sum.splits reduce_outcome.splits)

text \<open>
  C6. A file that fails (a parse error while reading it, \<^verbatim>\<open>NoReduction\<close> from the
  reduction or from the verification) is reported with its \<open>No\<close> chunk, and the loop goes
  on: the output on the files before it, then the report of the file, then the whole output
  of the loop on the files after it.
\<close>

theorem failure_does_not_abort:
  assumes "file_fails w file reason"
    and "snd (files_loop w lg before)"
  shows "files_loop w lg (before @ file # rest) =
           (fst (files_loop w lg before) @ fst (process_file w lg file) @ fst (files_loop w lg rest),
            snd (files_loop w lg rest))
         \<and> (\<exists>s. last (fst (process_file w lg file))
                  = (s, carriage_return @ ''No ('' @ file @ '') '' @ reason @ endl))"
  using assms file_fails_process [OF assms(1), of lg]
  by (simp add: files_loop_append files_loop_Cons del: files_loop.simps)

theorem failure_does_not_abort_witness:
  "files_loop world_example False ([''a.txt''] @ ''bad.txt'' # [''b.txt'', ''a.txt'']) =
     ([(Cout, ''File (a.txt)''), (Cout, carriage_return @ ''Ok (a.txt) < c1+ c2- >'' @ endl),
       (Cout, ''File (bad.txt)''),
       (Cerr, carriage_return @ ''No (bad.txt) Failed to read graph from file'' @ endl),
       (Cout, ''File (b.txt)''),
       (Cout, carriage_return @ ''No (b.txt) Could not reduce graph'' @ endl),
       (Cout, ''File (a.txt)''), (Cout, carriage_return @ ''Ok (a.txt) < c1+ c2- >'' @ endl)],
      True)"
  using failure_does_not_abort [of world_example "''bad.txt''" "''Failed to read graph from file''"
      False "[''a.txt'']" "[''b.txt'', ''a.txt'']"]
  by (simp add: file_fails_def process_file_def world_example_def g_S3_def mk_graph_def
      reduction_string_def show_SignedCharacter_def show_State_def Let_def)

text \<open>
  C7. When the parser returns a variables map in which both \<^verbatim>\<open>exponential\<close> and
  \<^verbatim>\<open>interactive\<close> are given and not defaulted, \<open>main\<close> prints the error that names the
  two conflicting options on standard error and returns 1, and nothing else is printed: no
  file is processed. When the parser itself rejects the command line, the exit code is 1 as
  well, with the message of the parser.
\<close>

theorem conflicting_options_exit:
  "(store_command_line w args = Inr vm
      \<and> vm ''exponential'' = Some ve \<and> \<not> defaulted ve
      \<and> vm ''interactive'' = Some vi \<and> \<not> defaulted vi \<longrightarrow>
      main w argv0 args =
        ([(Cerr, ''Error: conflicting options --exponential and --interactive.'' @ endl
                 @ ''Try '' @ [CHR 0x27] @ argv0 @ '' --help'' @ [CHR 0x27]
                 @ '' for more information.''
                 @ endl)],
         Some 1))
   \<and> (store_command_line w args = Inl what \<longrightarrow>
        main w argv0 args = (options_error argv0 what, Some 1))"
  by (simp add: main_def conflicting_options_def vm_count_def options_error_def)

theorem conflicting_options_exit_witness:
  "main world_example ''ppp'' [''-x'', ''-i'', ''a.txt''] =
     ([(Cerr, ''Error: conflicting options --exponential and --interactive.'' @ endl
              @ ''Try '' @ [CHR 0x27] @ ''ppp --help'' @ [CHR 0x27] @ '' for more information.''
              @ endl)],
      Some 1)"
  using conflicting_options_exit [of world_example "[''-x'', ''-i'', ''a.txt'']"
      "projr (store_command_line world_example [''-x'', ''-i'', ''a.txt''])"
      "\<lparr>as_value = Switch True, defaulted = False\<rparr>"
      "\<lparr>as_value = Switch True, defaulted = False\<rparr>" "''ppp''" "[]"]
  by (simp add: world_example_def)

section \<open>Properties of \<open>hasse_diagram\<close>\<close>

subsection \<open>The edge store\<close>

lemma edge_label_None_iff: "edge_label h k = None \<longleftrightarrow> k \<notin> set (hd_keys h)"
  by (simp add: edge_label_def hd_keys_def map_of_eq_None_iff)

lemma edge_label_boost_add_edge:
  "edge_label (snd (boost_add_edge u v h)) k =
     (if k = (u, v) \<and> edge_label h k = None then Some [] else edge_label h k)"
proof (cases "(u, v) \<in> set (hd_keys h)")
  case True
  then have "edge_label h (u, v) \<noteq> None" by (simp add: edge_label_None_iff)
  with True show ?thesis by (auto simp: boost_add_edge_def)
next
  case False
  then have none: "map_of (hd_edges h) (u, v) = None"
    by (simp add: hd_keys_def map_of_eq_None_iff)
  from False show ?thesis
    by (cases "map_of (hd_edges h) k") (auto simp: boost_add_edge_def edge_label_def map_add_def none)
qed

lemma fst_boost_add_edge: "fst (fst (boost_add_edge u v h)) = (u, v)"
  by (simp add: boost_add_edge_def)

lemma map_of_map_upd:
  "map_of (map (\<lambda>(k, p). if k = e then (k, g p) else (k, p)) xs) k
     = (if k = e then map_option g (map_of xs k) else map_of xs k)"
  by (induction xs) auto

lemma edge_label_update_edge:
  "edge_label (update_edge e f h) k =
     (if k = e then map_option f (edge_label h k) else edge_label h k)"
  by (simp add: update_edge_def edge_label_def map_of_map_upd option.map_comp comp_def)

lemma distinct_boost_add_edge:
  "distinct (hd_keys h) \<Longrightarrow> distinct (hd_keys (snd (boost_add_edge u v h)))"
  by (simp add: boost_add_edge_keys)

lemma num_v_boost_add_edge: "num_v (snd (boost_add_edge u v h)) = num_v h"
  by (simp add: boost_add_edge_def)

subsection \<open>Adding the collected edges\<close>

lemma add_new_edges_step:
  "add_new_edges u (ei # rest) h =
     add_new_edges u rest
       (update_edge (fst ei, u) (\<lambda>l. l @ [\<lparr>character = snd ei, state = gain\<rparr>])
          (snd (boost_add_edge (fst ei) u h)))"
  by (simp add: boost_add_edge_def Let_def)

lemma add_new_edges_frame:
  "hd_vertices (add_new_edges u ne h) = hd_vertices h
   \<and> (distinct (hd_keys h) \<longrightarrow> distinct (hd_keys (add_new_edges u ne h)))"
proof (induction ne arbitrary: h)
  case Nil
  show ?case by simp
next
  case (Cons ei rest)
  show ?case
    unfolding add_new_edges_step
    by (simp add: Cons.IH update_edge_keys update_edge_vertices boost_add_edge_vertices
        distinct_boost_add_edge)
qed

lemma edge_label_add_new_edges:
  "edge_label (add_new_edges u ne h) k =
     (if labels_for u ne k = [] then edge_label h k
      else Some ((case edge_label h k of None \<Rightarrow> [] | Some l \<Rightarrow> l) @ gains (labels_for u ne k)))"
proof (induction ne arbitrary: h)
  case Nil
  show ?case by (simp add: labels_for_def)
next
  case (Cons ei rest)
  show ?case
    unfolding add_new_edges_step Cons.IH
    by (auto simp: labels_for_def edge_label_update_edge edge_label_boost_add_edge gains_def
        split: option.splits)
qed

subsection \<open>The loop over the vertices of the diagram\<close>

lemma collect_new_edges_append:
  "collect_new_edges hdv lhdv lcv ne = ne @ collect_new_edges hdv lhdv lcv []"
  by (simp add: collect_new_edges_def)

lemma add_vertex_eq:
  "add_vertex sp ch h =
     (length (hd_vertices h), h\<lparr>hd_vertices := hd_vertices h @ [\<lparr>species = sp, characters = ch\<rparr>]\<rparr>)"
  by (simp add: add_vertex_def boost_add_vertex_def Let_def)

lemma hdv_loop_eq:
  "hdv_loop nm lcv ks ne h =
     (case find (\<lambda>hdv. lcv = chars_of h hdv) ks of
        Some hdv \<Rightarrow> append_species hdv nm h
      | None \<Rightarrow>
          if ks = [] then h
          else add_new_edges (length (hd_vertices h)) (ne @ contributions h lcv ks)
                 (snd (add_vertex1 nm lcv h)))"
proof (induction ks arbitrary: ne)
  case Nil
  show ?case by simp
next
  case (Cons hdv rest)
  show ?case
  proof (cases "lcv = chars_of h hdv")
    case True
    then show ?thesis by (simp add: chars_of_def append_species_def)
  next
    case False
    note neq = this
    show ?thesis
    proof (cases "rest = []")
      case True
      with neq show ?thesis
        by (simp add: chars_of_def contributions_def Let_def add_vertex1_def add_vertex_eq
            collect_new_edges_append [of hdv _ lcv ne])
    next
      case False
      with neq show ?thesis
        by (simp add: Cons.IH chars_of_def [symmetric] contributions_def Let_def
            collect_new_edges_append [of hdv _ lcv ne] split: option.splits)
    qed
  qed
qed

lemma labels_for_append:
  "labels_for u (xs @ ys) k = labels_for u xs k @ labels_for u ys k"
  by (simp add: labels_for_def)

lemma labels_for_collect:
  "labels_for n (collect_new_edges hdv lhdv lcv []) (u, v) =
     (if v = n \<and> u = hdv \<and> is_included lhdv lcv then filter (\<lambda>ci. ci \<notin> set lhdv) lcv else [])"
  by (auto simp: labels_for_def collect_new_edges_def filter_map comp_def find_eq_None_iff
      intro: filter_cong)

lemma labels_for_contributions:
  "distinct ks \<Longrightarrow>
   labels_for n (contributions h lcv ks) (u, v) =
     (if v = n \<and> u \<in> set ks \<and> is_included (chars_of h u) lcv
      then filter (\<lambda>ci. ci \<notin> set (chars_of h u)) lcv else [])"
proof (induction ks)
  case Nil
  show ?case by (simp add: contributions_def labels_for_def)
next
  case (Cons a ks)
  then have IH: "labels_for n (contributions h lcv ks) (u, v) =
     (if v = n \<and> u \<in> set ks \<and> is_included (chars_of h u) lcv
      then filter (\<lambda>ci. ci \<notin> set (chars_of h u)) lcv else [])"
    and a: "a \<notin> set ks" by simp_all
  have "contributions h lcv (a # ks) =
          collect_new_edges a (chars_of h a) lcv [] @ contributions h lcv ks"
    by (simp add: contributions_def)
  then show ?case
    using a by (auto simp: labels_for_append labels_for_collect IH)
qed

subsection \<open>The invariant of the build\<close>

lemma strict_subset_filter:
  "set a \<subset> set b \<longleftrightarrow> is_included a b \<and> filter (\<lambda>ci. ci \<notin> set a) b \<noteq> []"
  by (auto simp: is_included_subset filter_empty_conv)

lemma append_species_frame:
  "hd_edges (append_species hdv nm h) = hd_edges h"
  "length (hd_vertices (append_species hdv nm h)) = length (hd_vertices h)"
  "chars_of (append_species hdv nm h) v = chars_of h v"
  "num_v (append_species hdv nm h) = num_v h"
proof -
  show "chars_of (append_species hdv nm h) v = chars_of h v"
    by (cases "hdv < length (hd_vertices h)"; cases "v = hdv")
      (simp_all add: append_species_def chars_of_def list_update_beyond)
qed (simp_all add: append_species_def)

lemma build_inv_labels: "build_inv h \<Longrightarrow> edge_label h k = expected_label h k"
  by (simp only: build_inv_def)

lemma build_inv_distinct: "build_inv h \<Longrightarrow> distinct (hd_keys h)"
  by (simp only: build_inv_def)

lemma build_invI:
  "distinct (hd_keys h) \<Longrightarrow> (\<And>k. edge_label h k = expected_label h k) \<Longrightarrow> build_inv h"
  by (simp only: build_inv_def) blast

lemma build_inv_append_species: "build_inv h \<Longrightarrow> build_inv (append_species hdv nm h)"
  by (simp add: build_inv_def hd_keys_def edge_label_def expected_label_def append_species_frame)

lemma add_vertex1_frame:
  "hd_edges (snd (add_vertex1 nm lcv h)) = hd_edges h"
  "hd_vertices (snd (add_vertex1 nm lcv h)) = hd_vertices h @ [\<lparr>species = [nm], characters = lcv\<rparr>]"
  "num_v (snd (add_vertex1 nm lcv h)) = num_v h"
  by (simp_all add: add_vertex1_def add_vertex_eq)

lemma chars_of_add_vertex1:
  "chars_of (snd (add_vertex1 nm lcv h)) v =
     (if v < length (hd_vertices h) then chars_of h v
      else if v = length (hd_vertices h) then lcv
      else chars_of (snd (add_vertex1 nm lcv h)) v)"
  by (simp add: chars_of_def add_vertex1_frame nth_append)

lemma add_step_vertices:
  "hd_vertices (add_step nm lcv h) = hd_vertices h @ [\<lparr>species = [nm], characters = lcv\<rparr>]"
  by (simp add: add_step_def add_new_edges_frame add_vertex1_frame)

lemma chars_of_add_step:
  "v < length (hd_vertices h) \<Longrightarrow> chars_of (add_step nm lcv h) v = chars_of h v"
  "chars_of (add_step nm lcv h) (length (hd_vertices h)) = lcv"
  by (simp_all add: chars_of_def add_step_vertices nth_append)

lemma edge_label_add_step:
  assumes "build_inv h"
  shows "edge_label (add_step nm lcv h) (u, v) =
     (if v = length (hd_vertices h) then
        (if u < v \<and> set (chars_of h u) \<subset> set lcv
         then Some (gains (filter (\<lambda>ci. ci \<notin> set (chars_of h u)) lcv)) else None)
      else expected_label h (u, v))"
proof -
  let ?n = "length (hd_vertices h)"
  let ?h1 = "snd (add_vertex1 nm lcv h)"
  have lab1: "edge_label ?h1 k = expected_label h k" for k
    using build_inv_labels [OF assms, of k] by (simp add: edge_label_def add_vertex1_frame)
  have none: "expected_label h (u, ?n) = None"
    by (simp add: expected_label_def)
  have lf: "labels_for ?n (contributions h lcv [0..<?n]) (u, v) =
     (if v = ?n \<and> u < ?n \<and> is_included (chars_of h u) lcv
      then filter (\<lambda>ci. ci \<notin> set (chars_of h u)) lcv else [])"
    by (simp add: labels_for_contributions)
  show ?thesis
    unfolding add_step_def edge_label_add_new_edges lab1 lf
    using none by (auto simp: strict_subset_filter)
qed

lemma expected_label_add_step:
  "expected_label (add_step nm lcv h) (u, v) =
     (if v = length (hd_vertices h) then
        (if u < v \<and> set (chars_of h u) \<subset> set lcv
         then Some (gains (filter (\<lambda>ci. ci \<notin> set (chars_of h u)) lcv)) else None)
      else expected_label h (u, v))"
  by (auto simp: expected_label_def add_step_vertices chars_of_add_step)

lemma build_inv_add_step: "build_inv h \<Longrightarrow> build_inv (add_step nm lcv h)"
proof -
  assume inv: "build_inv h"
  have "distinct (hd_keys (snd (add_vertex1 nm lcv h)))"
    using build_inv_distinct [OF inv] by (simp add: hd_keys_def add_vertex1_frame)
  then have d: "distinct (hd_keys (add_step nm lcv h))"
    unfolding add_step_def using add_new_edges_frame by blast
  have "edge_label (add_step nm lcv h) k = expected_label (add_step nm lcv h) k" for k
    by (cases k) (simp add: edge_label_add_step [OF inv] expected_label_add_step)
  with d show ?thesis by (rule build_invI)
qed

lemma hdv_loop_cases:
  "hdv_loop nm lcv [0..<length (hd_vertices h)] [] h =
     (case find (\<lambda>hdv. lcv = chars_of h hdv) [0..<length (hd_vertices h)] of
        Some hdv \<Rightarrow> append_species hdv nm h
      | None \<Rightarrow> if hd_vertices h = [] then h else add_step nm lcv h)"
  by (simp add: hdv_loop_eq add_step_def split: option.splits)

lemma build_inv_hdv_loop:
  "build_inv h \<Longrightarrow> build_inv (hdv_loop nm lcv [0..<length (hd_vertices h)] [] h)"
  by (simp add: hdv_loop_cases build_inv_append_species build_inv_add_step split: option.splits)

lemma build_inv_first:
  assumes "hd_vertices h = []" and "hd_edges h = []"
  shows "build_inv (snd (add_vertex1 nm lcv h))"
  using assms
  by (auto simp: build_inv_def hd_keys_def edge_label_def expected_label_def add_vertex1_frame)

lemma build_loop_inv_pos:
  "0 < i \<Longrightarrow> build_inv h \<Longrightarrow> build_loop g vm ss i h = Some h' \<Longrightarrow> build_inv h'"
proof (induction ss arbitrary: i h)
  case Nil
  then show ?case by simp
next
  case (Cons s rest)
  from Cons.prems(3) obtain v tl where s: "s = v # tl"
    by (cases s) simp_all
  let ?lcv = "map (\<lambda>cv. name (rb_bundle g cv)) (v_map_at vm v)"
  let ?h1 = "hdv_loop (name (rb_bundle g v)) ?lcv [0..<length (hd_vertices h)] [] h"
  from Cons.prems s have run: "build_loop g vm rest (i + 1) ?h1 = Some h'"
    by (simp add: Let_def)
  have "build_inv ?h1" using Cons.prems(2) by (rule build_inv_hdv_loop)
  with Cons.IH [of "i + 1" ?h1] run show ?case by simp
qed

lemma build_loop_inv:
  assumes "hd_vertices h = []" and "hd_edges h = []"
    and "build_loop g vm ss 0 h = Some h'"
  shows "build_inv h'"
proof (cases ss)
  case Nil
  with assms show ?thesis
    by (auto simp: build_inv_def hd_keys_def edge_label_def expected_label_def)
next
  case (Cons s rest)
  from assms(3) Cons obtain v tl where s: "s = v # tl"
    by (cases s) simp_all
  let ?lcv = "map (\<lambda>cv. name (rb_bundle g cv)) (v_map_at vm v)"
  let ?h1 = "snd (add_vertex1 (name (rb_bundle g v)) ?lcv h)"
  from assms(3) Cons s have run: "build_loop g vm rest 1 ?h1 = Some h'"
    by (simp add: Let_def)
  have "build_inv ?h1" using assms(1,2) by (rule build_inv_first)
  with build_loop_inv_pos [of 1 ?h1 g vm rest h'] run show ?thesis by simp
qed

lemma build_loop_total:
  "\<forall>s \<in> set ss. s \<noteq> [] \<Longrightarrow> \<exists>h'. build_loop g vm ss i h = Some h'"
proof (induction ss arbitrary: i h)
  case Nil
  show ?case by simp
next
  case (Cons s rest)
  then obtain v tl where s: "s = v # tl" by (cases s) auto
  from Cons show ?case by (simp add: s Let_def)
qed

subsection \<open>Transitive reduction at one vertex\<close>

lemma hd_edges_remove_edge:
  "hd_edges (remove_edge e h) = filter (\<lambda>(k, p). k \<noteq> e) (hd_edges h)"
  by (simp add: remove_edge_def)

lemma out_edge_loop_edges:
  "hd_edges (out_edge_loop ie outs h) =
     filter (\<lambda>(k, p). \<not> (fst k = source ie \<and> snd k \<in> target ` set outs)) (hd_edges h)"
proof (induction outs arbitrary: h)
  case Nil
  show ?case by simp
next
  case (Cons oe rest)
  show ?case
  proof (cases "(source ie, target oe) \<in> set (hd_keys h)")
    case True
    then show ?thesis
      by (auto simp: edge_def Cons.IH hd_edges_remove_edge intro!: filter_cong)
  next
    case False
    then have "\<And>k p. (k, p) \<in> set (hd_edges h) \<Longrightarrow> k \<noteq> (source ie, target oe)"
      by (force simp: hd_keys_def)
    with False show ?thesis
      by (auto simp: edge_def Cons.IH intro!: filter_cong)
  qed
qed

lemma out_edge_loop_vertices: "hd_vertices (out_edge_loop ie outs h) = hd_vertices h"
  by (induction outs arbitrary: h) (simp_all add: edge_def remove_edge_def)

lemma hd_keys_filter:
  "hd_edges h' = filter (\<lambda>(k, p). P k) (hd_edges h) \<Longrightarrow> hd_keys h' = filter P (hd_keys h)"
  by (simp add: hd_keys_def filter_map comp_def case_prod_unfold)

lemma out_edges_out_edge_loop:
  "source ie \<noteq> u \<Longrightarrow> out_edges u (out_edge_loop ie outs h) = out_edges u h"
  by (auto simp: out_edges_def hd_keys_filter [OF out_edge_loop_edges] source_def
      intro!: filter_cong)

lemma in_edge_loop_edges:
  "u \<notin> source ` set ins \<Longrightarrow>
   hd_edges (in_edge_loop u ins h) =
     filter (\<lambda>(k, p). \<not> (fst k \<in> source ` set ins \<and> snd k \<in> target ` set (out_edges u h)))
       (hd_edges h)"
proof (induction ins arbitrary: h)
  case Nil
  show ?case by simp
next
  case (Cons ie rest)
  then have ne: "source ie \<noteq> u" and r: "u \<notin> source ` set rest" by auto
  show ?case
    by (auto simp: Cons.IH [OF r] out_edges_out_edge_loop [OF ne] out_edge_loop_edges
        intro!: filter_cong)
qed

lemma in_edge_loop_vertices: "hd_vertices (in_edge_loop u ins h) = hd_vertices h"
  by (induction ins arbitrary: h) (simp_all add: out_edge_loop_vertices)

text \<open>
  The edges removed at a vertex \<open>u\<close> without a loop edge are the edges from a source of an
  in-edge of \<open>u\<close> to a target of an out-edge of \<open>u\<close>: the result depends on the two sets
  only, not on the order in which the graph library walks the two ranges.
\<close>

lemma reduction_step_edges:
  assumes "(u, u) \<notin> edge_set h"
  shows "hd_edges (reduction_step u h) =
           filter (\<lambda>(k, p). \<not> ((fst k, u) \<in> edge_set h \<and> (u, snd k) \<in> edge_set h)) (hd_edges h)"
proof -
  have ins: "source ` set (in_edges u h) = {p. (p, u) \<in> edge_set h}"
    by (auto simp: in_edges_def source_def target_def edge_set_def image_iff)
  have outs: "target ` set (out_edges u h) = {q. (u, q) \<in> edge_set h}"
    by (auto simp: out_edges_def source_def target_def edge_set_def image_iff)
  from assms have nl: "u \<notin> source ` set (in_edges u h)" by (simp add: ins)
  show ?thesis
  proof (cases "in_degree u h = 0 \<or> out_degree u h = 0")
    case True
    then have "{p. (p, u) \<in> edge_set h} = {} \<or> {q. (u, q) \<in> edge_set h} = {}"
      unfolding ins [symmetric] outs [symmetric] by (auto simp: in_degree_def out_degree_def)
    then have "filter (\<lambda>(k, p). \<not> ((fst k, u) \<in> edge_set h \<and> (u, snd k) \<in> edge_set h)) (hd_edges h)
                 = hd_edges h"
      by (auto simp: filter_id_conv)
    with True show ?thesis by (simp add: reduction_step_def)
  next
    case False
    then show ?thesis
      by (simp add: reduction_step_def in_edge_loop_edges [OF nl] ins outs)
  qed
qed

lemma reduction_step_vertices: "hd_vertices (reduction_step u h) = hd_vertices h"
  by (simp add: reduction_step_def in_edge_loop_vertices)

lemma reduction_step_edge_set:
  assumes "(u, u) \<notin> edge_set h"
  shows "edge_set (reduction_step u h) = edge_set h - {(p, q). (p, u) \<in> edge_set h \<and> (u, q) \<in> edge_set h}"
  using hd_keys_filter [OF reduction_step_edges [OF assms]]
  by (auto simp: edge_set_def)

lemma reduction_step_sub: "(u, u) \<notin> edge_set h \<Longrightarrow> set (hd_edges (reduction_step u h)) \<subseteq> set (hd_edges h)"
  by (auto simp: reduction_step_edges)

lemma reduction_loop_snoc:
  "reduction_loop (xs @ [u]) h = reduction_step u (reduction_loop xs h)"
  by (induction xs arbitrary: h) (simp_all add: reduction_step_def)

subsection \<open>Transitive reduction at all vertices\<close>

lemma edge_set_build_inv:
  assumes "build_inv h"
  shows "edge_set h = {(u, v). u < v \<and> v < length (hd_vertices h)
                          \<and> set (chars_of h u) \<subset> set (chars_of h v)}"
proof -
  have "k \<in> edge_set h \<longleftrightarrow> expected_label h k \<noteq> None" for k
    using build_inv_labels [OF assms, of k] edge_label_None_iff [of h k]
    by (simp add: edge_set_def)
  then show ?thesis
    by (auto simp: expected_label_def split: if_splits)
qed

lemma trans_edge_set_build_inv: "build_inv h \<Longrightarrow> trans (edge_set h)"
  unfolding edge_set_build_inv
  by (rule transI) auto

lemma ordered_edge_set_build_inv:
  "build_inv h \<Longrightarrow> (u, v) \<in> edge_set h \<Longrightarrow> u < v \<and> v < length (hd_vertices h)"
  by (simp add: edge_set_build_inv)

lemma reduction_loop_props:
  assumes inv: "build_inv h0"
  shows "edge_set (reduction_loop [0..<k] h0) \<subseteq> edge_set h0
    \<and> set (hd_edges (reduction_loop [0..<k] h0)) \<subseteq> set (hd_edges h0)
    \<and> hd_vertices (reduction_loop [0..<k] h0) = hd_vertices h0
    \<and> (\<forall>p q. (p, q) \<in> edge_set h0 \<and> k \<le> p \<longrightarrow> (p, q) \<in> edge_set (reduction_loop [0..<k] h0))
    \<and> (\<forall>p w q. w < k \<and> (p, q) \<in> edge_set (reduction_loop [0..<k] h0)
          \<and> (p, w) \<in> edge_set (reduction_loop [0..<k] h0) \<and> (w, q) \<in> edge_set h0 \<longrightarrow> False)"
proof (induction k)
  case 0
  show ?case by simp
next
  case (Suc k)
  let ?hk = "reduction_loop [0..<k] h0"
  let ?hs = "reduction_loop [0..<Suc k] h0"
  from Suc have sub: "edge_set ?hk \<subseteq> edge_set h0"
    and subl: "set (hd_edges ?hk) \<subseteq> set (hd_edges h0)"
    and vs: "hd_vertices ?hk = hd_vertices h0"
    and keep: "\<And>p q. (p, q) \<in> edge_set h0 \<Longrightarrow> k \<le> p \<Longrightarrow> (p, q) \<in> edge_set ?hk"
    and red: "\<And>p w q. w < k \<Longrightarrow> (p, q) \<in> edge_set ?hk \<Longrightarrow> (p, w) \<in> edge_set ?hk
                \<Longrightarrow> (w, q) \<in> edge_set h0 \<Longrightarrow> False"
    by blast+
  have step: "?hs = reduction_step k ?hk"
    by (simp add: reduction_loop_snoc)
  have noloop: "(k, k) \<notin> edge_set ?hk"
    using sub ordered_edge_set_build_inv [OF inv, of k k] by auto
  have es: "edge_set ?hs = edge_set ?hk - {(p, q). (p, k) \<in> edge_set ?hk \<and> (k, q) \<in> edge_set ?hk}"
    unfolding step by (rule reduction_step_edge_set [OF noloop])
  have c1: "edge_set ?hs \<subseteq> edge_set h0" using es sub by auto
  have c2: "set (hd_edges ?hs) \<subseteq> set (hd_edges h0)"
    unfolding step using reduction_step_sub [OF noloop] subl by blast
  have c3: "hd_vertices ?hs = hd_vertices h0"
    unfolding step by (simp add: reduction_step_vertices vs)
  have c4: "(p, q) \<in> edge_set ?hs" if pq: "(p, q) \<in> edge_set h0" and le: "Suc k \<le> p" for p q
  proof -
    from pq le have "(p, q) \<in> edge_set ?hk" by (simp add: keep)
    moreover have "(p, k) \<notin> edge_set ?hk"
    proof
      assume "(p, k) \<in> edge_set ?hk"
      with sub have "(p, k) \<in> edge_set h0" by auto
      from ordered_edge_set_build_inv [OF inv this] le show False by simp
    qed
    ultimately show ?thesis using es by blast
  qed
  have c5: False if w: "w < Suc k" and pq: "(p, q) \<in> edge_set ?hs" and pw: "(p, w) \<in> edge_set ?hs"
    and wq: "(w, q) \<in> edge_set h0" for p w q
  proof (cases "w < k")
    case True
    from pq pw es have "(p, q) \<in> edge_set ?hk" "(p, w) \<in> edge_set ?hk" by auto
    with True wq red show False by blast
  next
    case False
    with w have wk: "w = k" by simp
    from wq have "(k, q) \<in> edge_set ?hk" unfolding wk by (simp add: keep)
    moreover from pw es have "(p, k) \<in> edge_set ?hk" unfolding wk by auto
    ultimately show False using pq es by auto
  qed
  from c1 c2 c3 c4 c5 show ?case by blast
qed

lemma reduced_no_shortcut:
  assumes inv: "build_inv h0"
    and H: "H = reduction_loop [0..<length (hd_vertices h0)] h0"
  shows "(p, q) \<in> edge_set H \<Longrightarrow> (p, q) \<notin> edge_set H O (edge_set H)\<^sup>+"
proof
  assume pq: "(p, q) \<in> edge_set H" and "(p, q) \<in> edge_set H O (edge_set H)\<^sup>+"
  then obtain w where pw: "(p, w) \<in> edge_set H" and wq: "(w, q) \<in> (edge_set H)\<^sup>+"
    by auto
  note props = reduction_loop_props [OF inv, of "length (hd_vertices h0)", folded H]
  from props have sub: "edge_set H \<subseteq> edge_set h0" by blast
  from wq trancl_mono [OF _ sub] have "(w, q) \<in> (edge_set h0)\<^sup>+" by blast
  then have wq0: "(w, q) \<in> edge_set h0"
    using trans_edge_set_build_inv [OF inv] by simp
  with ordered_edge_set_build_inv [OF inv] have "w < length (hd_vertices h0)" by fastforce
  with props pq pw wq0 show False by blast
qed

lemma acyclic_ordered:
  assumes "\<And>u v. (u, v) \<in> r \<Longrightarrow> u < (v::nat)"
  shows "acyclic r"
proof -
  have "acyclic (r\<inverse>)"
    by (rule acyclicI_order [where f = "\<lambda>x. x"]) (use assms in auto)
  then show ?thesis by simp
qed

lemma reduced_acyclic:
  assumes inv: "build_inv h0"
    and H: "H = reduction_loop [0..<length (hd_vertices h0)] h0"
  shows "acyclic (edge_set H)"
proof (rule acyclic_ordered)
  fix u v assume "(u, v) \<in> edge_set H"
  with reduction_loop_props [OF inv, of "length (hd_vertices h0)", folded H]
  have "(u, v) \<in> edge_set h0" by blast
  with ordered_edge_set_build_inv [OF inv] show "u < v" by blast
qed

subsection \<open>The lists of the species\<close>

lemma out_edges_loop_eq:
  "index < length sets \<Longrightarrow>
   out_edges_loop index v es (sets, vm) =
     (sets[index := sets ! index @ es],
      if es = [] then vm else vm(v \<mapsto> v_map_at vm v @ es))"
proof (induction es arbitrary: sets vm)
  case Nil
  show ?case by simp
next
  case (Cons vt es)
  then show ?case by (auto simp: v_map_at_def fun_eq_iff)
qed

lemma vertices_loop_eq:
  "vertices_loop g vs (length done) (done @ replicate m []) vm =
     (if length (filter (\<lambda>v. is_species v g) vs) \<le> m
      then Some (done @ map (\<lambda>v. v # rb_out_edges g v) (filter (\<lambda>v. is_species v g) vs)
                   @ replicate (m - length (filter (\<lambda>v. is_species v g) vs)) [],
                 v_map_after g vs vm)
      else None)"
proof (induction vs arbitrary: "done" m vm)
  case Nil
  show ?case by simp
next
  case (Cons v vs)
  show ?case
  proof (cases "is_species v g")
    case False
    then show ?thesis by (simp add: Cons.IH)
  next
    case True
    note sp = this
    show ?thesis
    proof (cases m)
      case 0
      with sp show ?thesis by simp
    next
      case (Suc m')
      let ?row = "v # rb_out_edges g v"
      have idx: "length done < length (done @ replicate m [])" by (simp add: Suc)
      have upd: "(done @ replicate m [])[length done := [v]] = done @ [v] # replicate m' []"
        by (simp add: Suc list_update_append)
      have upd2: "(done @ [v] # replicate m' [])[length done := [v] @ rb_out_edges g v]
                    = (done @ [?row]) @ replicate m' []"
        by (simp add: list_update_append)
      have nth1: "(done @ replicate m []) ! length done = []" by (simp add: Suc nth_append)
      have nth2: "(done @ [v] # replicate m' []) ! length done = [v]" by (simp add: nth_append)
      have "vertices_loop g (v # vs) (length done) (done @ replicate m []) vm =
              vertices_loop g vs (length (done @ [?row])) ((done @ [?row]) @ replicate m' [])
                (if rb_out_edges g v = [] then vm else vm(v \<mapsto> v_map_at vm v @ rb_out_edges g v))"
        using sp idx
        by (simp only: vertices_loop.simps Let_def nth1 upd out_edges_loop_eq nth2 upd2
            length_append length_Cons list.size append_Nil if_True if_False not_True_eq_False
            simp_thms case_prod_conv length_list_update) simp
      then show ?thesis
        unfolding Cons.IH using sp by (simp add: Suc)
    qed
  qed
qed

lemma vertices_loop_species_sets:
  assumes "counts_species g"
  shows "vertices_loop g (rb_vertices g) 0 (replicate (num_species g) []) Map.empty =
           Some (species_sets g, v_map_after g (rb_vertices g) Map.empty)"
  using assms vertices_loop_eq [of g "rb_vertices g" "[]" "num_species g" Map.empty]
  by (simp add: counts_species_def species_sets_def)

lemma hasse_diagram_eq:
  assumes "counts_species g"
  shows "hasse_diagram std_sort hasse g =
     (case build_loop g (v_map_after g (rb_vertices g) Map.empty) (std_sort (species_sets g)) 0 hasse of
        None \<Rightarrow> None
      | Some hasse1 \<Rightarrow> Some (reduction_loop [0..<length (hd_vertices hasse1)] hasse1))"
  by (simp add: hasse_diagram_def vertices_loop_species_sets [OF assms])

lemma sorted_sets_nonempty:
  assumes "std_sort_contract std_sort (species_sets g)"
  shows "\<forall>s \<in> set (std_sort (species_sets g)). s \<noteq> []"
proof -
  from assms have "set (std_sort (species_sets g)) = set (species_sets g)"
    by (auto simp: std_sort_contract_def dest: mset_eq_setD)
  then show ?thesis by (auto simp: species_sets_def)
qed

lemma hasse_diagram_built:
  assumes "counts_species g" and "std_sort_contract std_sort (species_sets g)"
    and "hd_vertices hasse = []" and "hd_edges hasse = []"
  shows "\<exists>h1. build_loop g (v_map_after g (rb_vertices g) Map.empty) (std_sort (species_sets g)) 0 hasse
                = Some h1
              \<and> build_inv h1
              \<and> hasse_diagram std_sort hasse g = Some (reduction_loop [0..<length (hd_vertices h1)] h1)"
proof -
  from build_loop_total [OF sorted_sets_nonempty [OF assms(2)]]
  obtain h1 where h1: "build_loop g (v_map_after g (rb_vertices g) Map.empty)
                         (std_sort (species_sets g)) 0 hasse = Some h1"
    by blast
  from build_loop_inv [OF assms(3,4) h1] have "build_inv h1" .
  with h1 show ?thesis by (simp add: hasse_diagram_eq [OF assms(1)])
qed

lemma edge_in_build_inv:
  assumes inv: "build_inv h" and mem: "((u, v), p) \<in> set (hd_edges h)"
  shows "u < v" and "v < length (hd_vertices h)"
    and "set (chars_of h u) \<subset> set (chars_of h v)"
    and "signedcharacters p = gains (filter (\<lambda>c. c \<notin> set (chars_of h u)) (chars_of h v))"
proof -
  from build_inv_distinct [OF inv] mem have "map_of (hd_edges h) (u, v) = Some p"
    by (simp add: hd_keys_def)
  then have "edge_label h (u, v) = Some (signedcharacters p)"
    by (simp add: edge_label_def)
  with build_inv_labels [OF inv, of "(u, v)"]
  have e: "expected_label h (u, v) = Some (signedcharacters p)" by simp
  then show "u < v" "v < length (hd_vertices h)"
    "set (chars_of h u) \<subset> set (chars_of h v)"
    "signedcharacters p = gains (filter (\<lambda>c. c \<notin> set (chars_of h u)) (chars_of h v))"
    by (auto simp: expected_label_def split: if_splits)
qed

text \<open>
  C1 (amended). For a graph whose species counter is right and the diagram built from an
  empty one: every edge from \<open>u\<close> to \<open>v\<close> joins two vertices of the diagram, the set of
  characters of \<open>u\<close> is strictly included in that of \<open>v\<close>, and the label is the list of the
  names of \<open>characters v\<close> that are not in \<open>characters u\<close>, in the order in which
  \<open>characters v\<close> holds them, each with the state gain.
\<close>

theorem hasse_edges_labelled:
  assumes "counts_species g" and "std_sort_contract std_sort (species_sets g)"
    and "hd_vertices hasse = []" and "hd_edges hasse = []"
  shows "\<exists>H. hasse_diagram std_sort hasse g = Some H
     \<and> (\<forall>((u, v), p) \<in> set (hd_edges H).
          u < length (hd_vertices H) \<and> v < length (hd_vertices H)
          \<and> set (characters (hd_vertices H ! u)) \<subset> set (characters (hd_vertices H ! v))
          \<and> signedcharacters p =
              map (\<lambda>c. \<lparr>character = c, state = gain\<rparr>)
                (filter (\<lambda>c. c \<notin> set (characters (hd_vertices H ! u)))
                   (characters (hd_vertices H ! v))))"
proof -
  from hasse_diagram_built [OF assms] obtain h1 where inv: "build_inv h1"
    and H: "hasse_diagram std_sort hasse g = Some (reduction_loop [0..<length (hd_vertices h1)] h1)"
    by blast
  let ?H = "reduction_loop [0..<length (hd_vertices h1)] h1"
  from reduction_loop_props [OF inv, of "length (hd_vertices h1)"]
  have sub: "set (hd_edges ?H) \<subseteq> set (hd_edges h1)" and vs: "hd_vertices ?H = hd_vertices h1"
    by blast+
  have "u < length (hd_vertices ?H) \<and> v < length (hd_vertices ?H)
          \<and> set (characters (hd_vertices ?H ! u)) \<subset> set (characters (hd_vertices ?H ! v))
          \<and> signedcharacters p =
              map (\<lambda>c. \<lparr>character = c, state = gain\<rparr>)
                (filter (\<lambda>c. c \<notin> set (characters (hd_vertices ?H ! u)))
                   (characters (hd_vertices ?H ! v)))"
    if "((u, v), p) \<in> set (hd_edges ?H)" for u v p
  proof -
    from that sub have mem: "((u, v), p) \<in> set (hd_edges h1)" by blast
    from edge_in_build_inv [OF inv mem] show ?thesis
      by (simp add: vs chars_of_def gains_def)
  qed
  with H show ?thesis by blast
qed

text \<open>
  C2. The diagram that \<open>hasse_diagram\<close> builds is acyclic, and no edge from \<open>u\<close> to \<open>v\<close>
  stands beside a path from \<open>u\<close> to \<open>v\<close> of two edges or more.
\<close>

theorem hasse_acyclic_reduced:
  assumes "counts_species g" and "std_sort_contract std_sort (species_sets g)"
    and "hd_vertices hasse = []" and "hd_edges hasse = []"
  shows "\<exists>H. hasse_diagram std_sort hasse g = Some H
     \<and> acyclic (edge_set H)
     \<and> (\<forall>u v. (u, v) \<in> edge_set H \<longrightarrow> (u, v) \<notin> edge_set H O (edge_set H)\<^sup>+)"
proof -
  from hasse_diagram_built [OF assms] obtain h1 where inv: "build_inv h1"
    and H: "hasse_diagram std_sort hasse g = Some (reduction_loop [0..<length (hd_vertices h1)] h1)"
    by blast
  from reduced_acyclic [OF inv refl] reduced_no_shortcut [OF inv refl] H
  show ?thesis by blast
qed

subsection \<open>Species with the same list of characters\<close>

lemma v_map_at_upd:
  "v_map_at (vm(a \<mapsto> x)) v = (if v = a then x else v_map_at vm v)"
  by (simp add: v_map_at_def)

lemma v_map_at_empty: "v_map_at Map.empty v = []"
  by (simp add: v_map_at_def)

lemma v_map_at_after:
  "distinct vs \<Longrightarrow>
   v_map_at (v_map_after g vs vm) v =
     v_map_at vm v @ (if v \<in> set vs \<and> is_species v g then rb_out_edges g v else [])"
proof (induction vs arbitrary: vm)
  case Nil
  show ?case by simp
next
  case (Cons a vs)
  then have d: "distinct vs" and a: "a \<notin> set vs" by simp_all
  show ?case
    using a by (auto simp: Cons.IH [OF d] v_map_at_upd)
qed

lemma map_characters_append_species:
  "map characters (hd_vertices (append_species hdv nm h)) = map characters (hd_vertices h)"
  by (rule nth_equalityI)
    (simp_all add: append_species_frame append_species_frame(3) [unfolded chars_of_def])

lemma covers_append_species:
  "covers h a L \<Longrightarrow> covers (append_species hdv nm h) a L"
proof -
  assume "covers h a L"
  then obtain hv where "hv \<in> set (hd_vertices h)" and c0: "characters hv = L"
    and m0: "a \<in> set (species hv)"
    unfolding covers_def by blast
  then obtain i where i: "i < length (hd_vertices h)" and "hd_vertices h ! i = hv"
    by (meson in_set_conv_nth)
  with c0 m0 have c: "characters (hd_vertices h ! i) = L"
    and m: "a \<in> set (species (hd_vertices h ! i))"
    by simp_all
  let ?vs = "hd_vertices (append_species hdv nm h)"
  have len: "i < length ?vs" using i by (simp add: append_species_frame)
  have "characters (?vs ! i) = L \<and> a \<in> set (species (?vs ! i))"
    using i c m by (cases "i = hdv") (simp_all add: append_species_def)
  with len show ?thesis
    unfolding covers_def by (metis nth_mem)
qed

lemma covers_append_species_new:
  "hdv < length (hd_vertices h) \<Longrightarrow> chars_of h hdv = L \<Longrightarrow> covers (append_species hdv nm h) nm L"
proof -
  assume k: "hdv < length (hd_vertices h)" and c: "chars_of h hdv = L"
  let ?vs = "hd_vertices (append_species hdv nm h)"
  have len: "hdv < length ?vs" using k by (simp add: append_species_frame)
  have "characters (?vs ! hdv) = L \<and> nm \<in> set (species (?vs ! hdv))"
    using k c by (simp add: append_species_def chars_of_def)
  with len show ?thesis
    unfolding covers_def by (metis nth_mem)
qed

lemma covers_add_step: "covers h a L \<Longrightarrow> covers (add_step nm lcv h) a L"
  by (auto simp: covers_def add_step_vertices)

lemma covers_add_step_new: "covers (add_step nm lcv h) nm lcv"
  by (simp add: covers_def add_step_vertices)

lemma find_chars_Some:
  "find (\<lambda>hdv. lcv = chars_of h hdv) [0..<n] = Some k \<Longrightarrow> k < n \<and> chars_of h k = lcv"
  by (auto simp: find_Some_iff)

lemma find_chars_None:
  "find (\<lambda>hdv. lcv = chars_of h hdv) [0..<length (hd_vertices h)] = None
   \<Longrightarrow> lcv \<notin> set (map characters (hd_vertices h))"
  by (auto simp: find_None_iff chars_of_def in_set_conv_nth)

lemma hdv_loop_covers:
  assumes "hd_vertices h \<noteq> []" and "distinct (map characters (hd_vertices h))"
  shows "distinct (map characters (hd_vertices (hdv_loop nm lcv [0..<length (hd_vertices h)] [] h)))"
    and "hd_vertices (hdv_loop nm lcv [0..<length (hd_vertices h)] [] h) \<noteq> []"
    and "covers (hdv_loop nm lcv [0..<length (hd_vertices h)] [] h) nm lcv"
    and "covers h a L \<Longrightarrow> covers (hdv_loop nm lcv [0..<length (hd_vertices h)] [] h) a L"
proof -
  let ?f = "find (\<lambda>hdv. lcv = chars_of h hdv) [0..<length (hd_vertices h)]"
  let ?h' = "hdv_loop nm lcv [0..<length (hd_vertices h)] [] h"
  show "distinct (map characters (hd_vertices ?h'))"
  proof (cases ?f)
    case None
    with assms find_chars_None [OF None] show ?thesis
      by (simp add: hdv_loop_cases add_step_vertices)
  next
    case (Some k)
    with assms show ?thesis
      by (simp add: hdv_loop_cases map_characters_append_species)
  qed
  show "hd_vertices ?h' \<noteq> []"
  proof (cases ?f)
    case None
    with assms(1) show ?thesis by (simp add: hdv_loop_cases add_step_vertices)
  next
    case (Some k)
    have "length (hd_vertices (append_species k nm h)) \<noteq> 0"
      using assms(1) by (simp add: append_species_frame)
    with Some show ?thesis by (simp add: hdv_loop_cases)
  qed
  show "covers ?h' nm lcv"
  proof (cases ?f)
    case None
    with assms show ?thesis by (simp add: hdv_loop_cases covers_add_step_new)
  next
    case (Some k)
    from find_chars_Some [OF Some] Some show ?thesis
      by (simp add: hdv_loop_cases covers_append_species_new)
  qed
  show "covers h a L \<Longrightarrow> covers ?h' a L"
    using assms(1)
    by (cases ?f) (simp_all add: hdv_loop_cases covers_add_step covers_append_species)
qed

lemma build_loop_covers_pos:
  assumes "0 < i" and "hd_vertices h \<noteq> []" and "distinct (map characters (hd_vertices h))"
    and "build_loop g vm ss i h = Some h'"
  shows "distinct (map characters (hd_vertices h'))
       \<and> (\<forall>a L. covers h a L \<longrightarrow> covers h' a L)
       \<and> (\<forall>v tl. v # tl \<in> set ss \<longrightarrow>
             covers h' (name (rb_bundle g v)) (map (\<lambda>cv. name (rb_bundle g cv)) (v_map_at vm v)))"
  using assms
proof (induction ss arbitrary: i h)
  case Nil
  then show ?case by simp
next
  case (Cons s rest)
  from Cons.prems(4) obtain v tl where s: "s = v # tl"
    by (cases s) simp_all
  let ?lcv = "map (\<lambda>cv. name (rb_bundle g cv)) (v_map_at vm v)"
  let ?nm = "name (rb_bundle g v)"
  let ?h1 = "hdv_loop ?nm ?lcv [0..<length (hd_vertices h)] [] h"
  from Cons.prems s have run: "build_loop g vm rest (i + 1) ?h1 = Some h'"
    by (simp add: Let_def)
  note step = hdv_loop_covers [OF Cons.prems(2,3), where nm = ?nm and lcv = ?lcv]
  from Cons.IH [OF _ step(2) step(1) run]
  have d: "distinct (map characters (hd_vertices h'))"
    and mono: "\<And>a L. covers ?h1 a L \<Longrightarrow> covers h' a L"
    and rest: "\<And>v tl. v # tl \<in> set rest \<Longrightarrow>
             covers h' (name (rb_bundle g v)) (map (\<lambda>cv. name (rb_bundle g cv)) (v_map_at vm v))"
    by auto
  have here: "covers h' ?nm ?lcv" using step(3) by (rule mono)
  have mono0: "covers h a L \<Longrightarrow> covers h' a L" for a L
    using step(4) mono by blast
  from d here mono0 rest show ?case by (auto simp: s)
qed

lemma build_loop_covers:
  assumes "hd_vertices h = []" and "build_loop g vm ss 0 h = Some h'"
  shows "distinct (map characters (hd_vertices h'))
       \<and> (\<forall>v tl. v # tl \<in> set ss \<longrightarrow>
             covers h' (name (rb_bundle g v)) (map (\<lambda>cv. name (rb_bundle g cv)) (v_map_at vm v)))"
proof (cases ss)
  case Nil
  with assms show ?thesis by simp
next
  case (Cons s rest)
  from assms(2) Cons obtain v tl where s: "s = v # tl"
    by (cases s) simp_all
  let ?lcv = "map (\<lambda>cv. name (rb_bundle g cv)) (v_map_at vm v)"
  let ?nm = "name (rb_bundle g v)"
  let ?h1 = "snd (add_vertex1 ?nm ?lcv h)"
  from assms(2) Cons s have run: "build_loop g vm rest 1 ?h1 = Some h'"
    by (simp add: Let_def)
  have v1: "hd_vertices ?h1 = [\<lparr>species = [?nm], characters = ?lcv\<rparr>]"
    using assms(1) by (simp add: add_vertex1_frame)
  have c1: "covers ?h1 ?nm ?lcv" by (simp add: covers_def v1)
  from build_loop_covers_pos [OF _ _ _ run] v1
  have d: "distinct (map characters (hd_vertices h'))"
    and mono: "\<And>a L. covers ?h1 a L \<Longrightarrow> covers h' a L"
    and rest: "\<And>v tl. v # tl \<in> set rest \<Longrightarrow>
             covers h' (name (rb_bundle g v)) (map (\<lambda>cv. name (rb_bundle g cv)) (v_map_at vm v))"
    by auto
  from d mono [OF c1] rest show ?thesis by (auto simp: Cons s)
qed

lemma mset_two:
  assumes "mset xs = {#a, b#}"
  shows "xs = [a, b] \<or> xs = [b, a]"
proof -
  from assms have "size (mset xs) = 2" by simp
  then have "length xs = 2" by simp
  then obtain x y where xs: "xs = [x, y]"
    by (metis (no_types, opaque_lifting) One_nat_def Suc_1 length_0_conv length_Suc_conv)
  with assms have "{#x, y#} = {#a, b#}" by simp
  then have "x = a \<and> y = b \<or> x = b \<and> y = a"
    by (auto simp: add_eq_conv_ex)
  with xs show ?thesis by auto
qed

lemma build_loop_two:
  assumes "hd_vertices h = []"
    and "map (\<lambda>cv. name (rb_bundle g cv)) (v_map_at vm v1) = L"
    and "map (\<lambda>cv. name (rb_bundle g cv)) (v_map_at vm v2) = L"
  shows "build_loop g vm [v1 # t1, v2 # t2] 0 h =
           Some (h\<lparr>hd_vertices :=
                    [\<lparr>species = [name (rb_bundle g v1), name (rb_bundle g v2)], characters = L\<rparr>]\<rparr>)"
  using assms by (simp add: add_vertex1_def add_vertex_eq)

lemma reduction_loop_no_edges:
  "hd_edges h = [] \<Longrightarrow> reduction_loop ks h = h"
  by (induction ks) (simp_all add: in_degree_def in_edges_def hd_keys_def)

text \<open>
  Two species with the same list of adjacent character names (the names in the order of the
  out-edges) are listed by one and the same vertex of the diagram, the only vertex with that
  list of characters; and when the graph has no other species, the diagram has one vertex
  and no edge.
\<close>

lemma equal_lists_collapse:
  assumes cs: "counts_species g" and dv: "distinct (rb_vertices g)"
    and srt: "std_sort_contract std_sort (species_sets g)"
    and e1: "hd_vertices hasse = []" and e2: "hd_edges hasse = []"
    and s: "s \<in> set (rb_vertices g)" "is_species s g"
    and t: "t \<in> set (rb_vertices g)" "is_species t g"
    and eq: "lcv_of g s = lcv_of g t"
  shows "\<exists>H. hasse_diagram std_sort hasse g = Some H
     \<and> (\<exists>i < length (hd_vertices H).
           characters (hd_vertices H ! i) = lcv_of g s
           \<and> name (rb_bundle g s) \<in> set (species (hd_vertices H ! i))
           \<and> name (rb_bundle g t) \<in> set (species (hd_vertices H ! i))
           \<and> (\<forall>j < length (hd_vertices H). characters (hd_vertices H ! j) = lcv_of g s \<longrightarrow> j = i))
     \<and> (filter (\<lambda>v. is_species v g) (rb_vertices g) = [s, t] \<longrightarrow>
           length (hd_vertices H) = 1 \<and> hd_edges H = [])"
proof -
  let ?vm = "v_map_after g (rb_vertices g) Map.empty"
  let ?ss = "std_sort (species_sets g)"
  from hasse_diagram_built [OF cs srt e1 e2] obtain h1
    where run: "build_loop g ?vm ?ss 0 hasse = Some h1" and inv: "build_inv h1"
      and H: "hasse_diagram std_sort hasse g = Some (reduction_loop [0..<length (hd_vertices h1)] h1)"
    by blast
  let ?H = "reduction_loop [0..<length (hd_vertices h1)] h1"
  have vs: "hd_vertices ?H = hd_vertices h1"
    using reduction_loop_props [OF inv, of "length (hd_vertices h1)"] by blast
  have vm: "map (\<lambda>cv. name (rb_bundle g cv)) (v_map_at ?vm v) = lcv_of g v"
    if "v \<in> set (rb_vertices g)" "is_species v g" for v
    using that by (simp add: v_map_at_after [OF dv] v_map_at_empty lcv_of_def)
  have set_ss: "set ?ss = set (species_sets g)"
    using srt by (auto simp: std_sort_contract_def dest: mset_eq_setD)
  have mem: "v # rb_out_edges g v \<in> set ?ss" if "v \<in> set (rb_vertices g)" "is_species v g" for v
    unfolding set_ss using that by (auto simp: species_sets_def)
  from build_loop_covers [OF e1 run]
  have d: "distinct (map characters (hd_vertices h1))"
    and cov: "\<And>v tl. v # tl \<in> set ?ss \<Longrightarrow>
                covers h1 (name (rb_bundle g v)) (map (\<lambda>cv. name (rb_bundle g cv)) (v_map_at ?vm v))"
    by blast+
  from cov [OF mem [OF s]] vm [OF s] have cs': "covers h1 (name (rb_bundle g s)) (lcv_of g s)" by simp
  from cov [OF mem [OF t]] vm [OF t] eq have ct': "covers h1 (name (rb_bundle g t)) (lcv_of g s)" by simp
  from cs' obtain hv where hv: "hv \<in> set (hd_vertices h1)" "characters hv = lcv_of g s"
    "name (rb_bundle g s) \<in> set (species hv)"
    unfolding covers_def by blast
  from ct' obtain hw where hw: "hw \<in> set (hd_vertices h1)" "characters hw = lcv_of g s"
    "name (rb_bundle g t) \<in> set (species hw)"
    unfolding covers_def by blast
  from hv(1) obtain i where i: "i < length (hd_vertices h1)" "hd_vertices h1 ! i = hv"
    by (meson in_set_conv_nth)
  from hw(1) obtain j where j: "j < length (hd_vertices h1)" "hd_vertices h1 ! j = hw"
    by (meson in_set_conv_nth)
  have uniq: "k = i" if "k < length (hd_vertices h1)" "characters (hd_vertices h1 ! k) = lcv_of g s" for k
  proof -
    from that i hv(2) have "map characters (hd_vertices h1) ! k = map characters (hd_vertices h1) ! i"
      by simp
    with d that(1) i(1) show ?thesis
      by (simp add: nth_eq_iff_index_eq del: nth_map)
  qed
  from uniq [OF j(1)] j(2) hw(2) have "hw = hv" using i(2) by simp
  with hw(3) have tin: "name (rb_bundle g t) \<in> set (species hv)" by simp
  have part1: "\<exists>i < length (hd_vertices ?H).
           characters (hd_vertices ?H ! i) = lcv_of g s
           \<and> name (rb_bundle g s) \<in> set (species (hd_vertices ?H ! i))
           \<and> name (rb_bundle g t) \<in> set (species (hd_vertices ?H ! i))
           \<and> (\<forall>j < length (hd_vertices ?H). characters (hd_vertices ?H ! j) = lcv_of g s \<longrightarrow> j = i)"
    unfolding vs using i hv(2,3) tin uniq by blast
  have part2: "length (hd_vertices ?H) = 1 \<and> hd_edges ?H = []"
    if two: "filter (\<lambda>v. is_species v g) (rb_vertices g) = [s, t]"
  proof -
    have sets: "species_sets g = [s # rb_out_edges g s, t # rb_out_edges g t]"
      by (simp add: species_sets_def two)
    from srt have "mset ?ss = {#s # rb_out_edges g s, t # rb_out_edges g t#}"
      by (simp add: std_sort_contract_def sets)
    from mset_two [OF this]
    have "\<exists>a b. build_loop g ?vm ?ss 0 hasse =
            Some (hasse\<lparr>hd_vertices := [\<lparr>species = [a, b], characters = lcv_of g s\<rparr>]\<rparr>)"
    proof
      assume "?ss = [s # rb_out_edges g s, t # rb_out_edges g t]"
      then show ?thesis
        using build_loop_two [OF e1 vm [OF s] vm [OF t, folded eq]] by auto
    next
      assume "?ss = [t # rb_out_edges g t, s # rb_out_edges g s]"
      then show ?thesis
        using build_loop_two [OF e1 vm [OF t, folded eq] vm [OF s]] by auto
    qed
    with run obtain a b
      where h1: "h1 = hasse\<lparr>hd_vertices := [\<lparr>species = [a, b], characters = lcv_of g s\<rparr>]\<rparr>"
      by auto
    then have "hd_edges h1 = []" by (simp add: e2)
    then have "?H = h1" by (rule reduction_loop_no_edges)
    then show ?thesis by (simp add: h1 e2)
  qed
  from H part1 part2 show ?thesis by blast
qed

text \<open>
  The red-black graph keeps, like the diagram, the out-edges of a vertex in a set ordered by
  target: out-edges come in increasing order of their targets, one for each target. Then two
  species whose adjacent characters have pairwise different names, and the same set of names,
  have the same list of names.
\<close>

lemma lcv_of_eq_from_sets:
  assumes so: "sorted (rb_out_edges g s)" "distinct (rb_out_edges g s)"
    and to: "sorted (rb_out_edges g t)" "distinct (rb_out_edges g t)"
    and inj: "inj_on (\<lambda>cv. name (rb_bundle g cv)) (set (rb_out_edges g s) \<union> set (rb_out_edges g t))"
    and eq: "set (lcv_of g s) = set (lcv_of g t)"
  shows "lcv_of g s = lcv_of g t"
proof -
  let ?f = "\<lambda>cv. name (rb_bundle g cv)"
  from eq have "?f ` set (rb_out_edges g s) = ?f ` set (rb_out_edges g t)"
    by (simp add: lcv_of_def)
  with inj have "set (rb_out_edges g s) = set (rb_out_edges g t)"
    by (simp add: inj_on_image_eq_iff [of ?f "set (rb_out_edges g s) \<union> set (rb_out_edges g t)"])
  with so to have "rb_out_edges g s = rb_out_edges g t"
    by (simp add: sorted_distinct_set_unique)
  then show ?thesis by (simp add: lcv_of_def)
qed

text \<open>
  C3. Two species with identical sets of adjacent character names are listed by one and the
  same vertex of the diagram, the only vertex with their list of characters, rather than by
  separate vertices; when the graph has no other species (two species both adjacent to c1
  and c2), the diagram has one vertex and no edge. The out-edges of the two species are in
  the order of their targets, one for each target, as the set of out-edges of the graph
  library gives them, and different adjacent characters have different names, as the
  characters c1, ..., cn of a matrix have.
\<close>

theorem equal_character_sets_collapse:
  assumes cs: "counts_species g" and dv: "distinct (rb_vertices g)"
    and srt: "std_sort_contract std_sort (species_sets g)"
    and e1: "hd_vertices hasse = []" and e2: "hd_edges hasse = []"
    and s: "s \<in> set (rb_vertices g)" "is_species s g"
    and t: "t \<in> set (rb_vertices g)" "is_species t g"
    and so: "sorted (rb_out_edges g s)" "distinct (rb_out_edges g s)"
    and to: "sorted (rb_out_edges g t)" "distinct (rb_out_edges g t)"
    and inj: "inj_on (\<lambda>cv. name (rb_bundle g cv)) (set (rb_out_edges g s) \<union> set (rb_out_edges g t))"
    and eq: "set (lcv_of g s) = set (lcv_of g t)"
  shows "\<exists>H. hasse_diagram std_sort hasse g = Some H
     \<and> (\<exists>i < length (hd_vertices H).
           characters (hd_vertices H ! i) = lcv_of g s
           \<and> name (rb_bundle g s) \<in> set (species (hd_vertices H ! i))
           \<and> name (rb_bundle g t) \<in> set (species (hd_vertices H ! i))
           \<and> (\<forall>j < length (hd_vertices H). characters (hd_vertices H ! j) = lcv_of g s \<longrightarrow> j = i))
     \<and> (filter (\<lambda>v. is_species v g) (rb_vertices g) = [s, t] \<longrightarrow>
           length (hd_vertices H) = 1 \<and> hd_edges H = [])"
  using equal_lists_collapse [OF cs dv srt e1 e2 s t lcv_of_eq_from_sets [OF so to inj eq]] .

subsection \<open>The examples, evaluated\<close>

lemma sort_key_contract: "std_sort_contract (sort_key length) sets"
proof -
  have "sorted (map length (sort_key length sets))" by (rule sorted_sort_key)
  then have "sorted_wrt (\<lambda>a b. \<not> ascending_size b a) (sort_key length sets)"
    by (simp add: sorted_map ascending_size_def not_less)
  then show ?thesis by (simp add: std_sort_contract_def)
qed

lemmas eval_defs =
  hasse_diagram_def mk_graph_def hd_empty_def num_species_def is_species_def v_map_at_def
  add_vertex1_def add_vertex_eq collect_new_edges_def boost_add_edge_def update_edge_def
  hd_keys_def in_degree_def out_degree_def in_edges_def out_edges_def edge_def remove_edge_def
  source_def target_def Let_def

lemma hasse_S4: "hasse_diagram (sort_key length) hd_empty g_S4 = Some hd_S4"
  by (simp add: g_S4_def hd_S4_def eval_defs)

lemma hasse_S3: "hasse_diagram (sort_key length) hd_empty g_S3 = Some hd_S3"
  by (simp add: g_S3_def hd_S3_def eval_defs)

lemma hasse_c10: "hasse_diagram (sort_key length) hd_empty g_c10 = Some hd_c10"
  by (simp add: g_c10_def hd_c10_def eval_defs)

lemma hd_empty_no_vertices: "hd_vertices hd_empty = []" "hd_edges hd_empty = []"
  by (simp_all add: hd_empty_def)

lemma counts_examples:
  "counts_species g_S3" "counts_species g_S4" "counts_species g_c10"
  by (simp_all add: counts_species_def num_species_def is_species_def mk_graph_def
      g_S3_def g_S4_def g_c10_def)

text \<open>
  C1 (as stated). The label would be the sorted list of the names in characters(v) minus
  characters(u). For the species s1 with c1 and s2 with c1, c2, c10 the edge from the first
  vertex to the second is labelled c2, c10, which is the order of the out-edges of s2; the
  sorted list of the difference is c10, c2.
\<close>

theorem hasse_label_not_sorted:
  "hasse_diagram (sort_key length) hd_empty g_c10 = Some hd_c10
   \<and> hd_edges hd_c10 =
       [((0, 1), \<lparr>signedcharacters = [\<lparr>character = ''c2'', state = gain\<rparr>,
                                      \<lparr>character = ''c10'', state = gain\<rparr>]\<rparr>)]
   \<and> sorted_difference (characters (hd_vertices hd_c10 ! 1)) (characters (hd_vertices hd_c10 ! 0))
       = [''c10'', ''c2'']
   \<and> signedcharacters (snd (hd_edges hd_c10 ! 0)) \<noteq>
       map (\<lambda>c. \<lparr>character = c, state = gain\<rparr>)
         (sorted_difference (characters (hd_vertices hd_c10 ! 1))
            (characters (hd_vertices hd_c10 ! 0)))"
  by (simp add: hasse_c10) (simp add: hd_c10_def sorted_difference_def)

theorem hasse_edges_labelled_witness:
  "counts_species g_S4
   \<and> std_sort_contract (sort_key length) (species_sets g_S4)
   \<and> hd_vertices hd_empty = [] \<and> hd_edges hd_empty = []
   \<and> hasse_diagram (sort_key length) hd_empty g_S4 = Some hd_S4
   \<and> hd_edges hd_S4 =
       [((0, 1), \<lparr>signedcharacters = [\<lparr>character = ''c2'', state = gain\<rparr>]\<rparr>),
        ((1, 2), \<lparr>signedcharacters = [\<lparr>character = ''c3'', state = gain\<rparr>]\<rparr>)]
   \<and> map characters (hd_vertices hd_S4) = [[''c1''], [''c1'', ''c2''], [''c1'', ''c2'', ''c3'']]"
  using hasse_edges_labelled [OF counts_examples(2) sort_key_contract, of hd_empty]
  by (simp add: counts_examples sort_key_contract hasse_S4) (simp add: hd_S4_def hd_empty_def)

theorem hasse_acyclic_reduced_witness:
  "counts_species g_S4
   \<and> std_sort_contract (sort_key length) (species_sets g_S4)
   \<and> hd_vertices hd_empty = [] \<and> hd_edges hd_empty = []
   \<and> hasse_diagram (sort_key length) hd_empty g_S4 = Some hd_S4
   \<and> acyclic (edge_set hd_S4)
   \<and> edge_set hd_S4 = {(0, 1), (1, 2)}"
proof -
  from hasse_acyclic_reduced [OF counts_examples(2) sort_key_contract, of hd_empty]
  obtain H where "hasse_diagram (sort_key length) hd_empty g_S4 = Some H"
    and "acyclic (edge_set H)"
    by (auto simp: hd_empty_def)
  then have "acyclic (edge_set hd_S4)" by (simp add: hasse_S4)
  moreover have "edge_set hd_S4 = {(0, 1), (1, 2)}"
    by (simp add: edge_set_def hd_keys_def hd_S4_def)
  ultimately show ?thesis
    by (simp add: counts_examples sort_key_contract hasse_S4 hd_empty_no_vertices)
qed

theorem equal_character_sets_collapse_witness:
  "counts_species g_S3 \<and> distinct (rb_vertices g_S3)
   \<and> std_sort_contract (sort_key length) (species_sets g_S3)
   \<and> hd_vertices hd_empty = [] \<and> hd_edges hd_empty = []
   \<and> 0 \<in> set (rb_vertices g_S3) \<and> 1 \<in> set (rb_vertices g_S3)
   \<and> is_species 0 g_S3 \<and> is_species 1 g_S3
   \<and> sorted (rb_out_edges g_S3 0) \<and> distinct (rb_out_edges g_S3 0)
   \<and> sorted (rb_out_edges g_S3 1) \<and> distinct (rb_out_edges g_S3 1)
   \<and> inj_on (\<lambda>cv. name (rb_bundle g_S3 cv)) (set (rb_out_edges g_S3 0) \<union> set (rb_out_edges g_S3 1))
   \<and> set (lcv_of g_S3 0) = set (lcv_of g_S3 1)
   \<and> filter (\<lambda>v. is_species v g_S3) (rb_vertices g_S3) = [0, 1]
   \<and> hasse_diagram (sort_key length) hd_empty g_S3 = Some hd_S3
   \<and> hd_vertices hd_S3 = [\<lparr>species = [''s1'', ''s2''], characters = [''c1'', ''c2'']\<rparr>]
   \<and> hd_edges hd_S3 = []"
  using equal_character_sets_collapse [OF counts_examples(1) _ sort_key_contract, of hd_empty 0 1]
  by (simp add: counts_examples sort_key_contract hasse_S3)
    (simp add: hd_S3_def hd_empty_def g_S3_def mk_graph_def is_species_def lcv_of_def)

end
